theory Spec2Isabelle
  imports Complex_Main "HOL-Library.AList" "HOL-Library.Product_Lexorder"
begin

chapter \<open>The model\<close>

text \<open>
  A shallow embedding of the tool-client runtime of the Jenkins chatbot agent:
  the recovery manager's circuit breaker (\<^verbatim>\<open>recovery_manager.py\<close>), the tool
  registry's server selection, tracking and fallback (\<^verbatim>\<open>tool_registry.py\<close>), the
  cache and the connection pool (\<^verbatim>\<open>performance_manager.py\<close>), and parameter
  validation and capability discovery (\<^verbatim>\<open>mcp_universal_client.py\<close>).

  Conventions. Every reading of \<^verbatim>\<open>time.time()\<close> is an explicit argument. A finite
  Python float is the rational number it denotes; the arithmetic on success rates,
  scores, averages and durations rounds each result to the nearest double, as the
  machine does; the sums and differences of clock readings that decide an expiry or a
  breaker's timeout are exact. A Python exception is a value of \<open>py_error\<close>, returned with \<open>Inl\<close>.
  Mutated objects are passed in and returned.
\<close>

section \<open>Python values and exceptions\<close>

text \<open>
  The values that travel as tool parameters, tool results and cache entries are JSON-like
  Python values. A dictionary is an association list in insertion order. A string is the
  list of its code points, all below 256. A float value is a finite double, an infinity
  (\<open>Float_inf True\<close> the positive one) or a NaN. \<^verbatim>\<open>ValueError\<close> and \<^verbatim>\<open>RuntimeError\<close> carry
  their message.
\<close>

datatype pyfloat = Float_finite rat | Float_inf bool | Float_nan

datatype pyval =
    PNone | PBool bool | PInt int | PFloat pyfloat | PStr string
  | PList "pyval list" | PDict "(string \<times> pyval) list"

datatype py_error =
    TypeError | KeyError | ValueError string | OverflowError | AttributeError
  | RuntimeError string

section \<open>Double precision\<close>

text \<open>
  A Python \<^verbatim>\<open>float\<close> is an IEEE 754 binary64 number. \<open>nearest_double x\<close> is the double
  nearest to the rational \<open>x\<close>, a tie going to the even significand: with \<open>e\<close> the
  binary exponent of \<open>x\<close>, not below that of the least normal number, \<open>x\<close> is rounded to
  a multiple of \<open>2 ^ (e - 52)\<close>. A result of magnitude \<open>2 ^ 1024\<close> or more stands for an
  overflow (\<^verbatim>\<open>inf\<close>, or \<^verbatim>\<open>OverflowError\<close> in a conversion): \<open>double_overflow\<close>.
  \<open>bit_length\<close> is \<^verbatim>\<open>int.bit_length\<close> on the integers above 0.
\<close>

function bit_length :: "int \<Rightarrow> int" where
  "bit_length n = (if n \<le> 0 then 0 else 1 + bit_length (n div 2))"
  by pat_completeness auto
termination by (relation "measure nat") auto

declare bit_length.simps [simp del]

definition pow2 :: "int \<Rightarrow> rat" where
  "pow2 e = (if 0 \<le> e then 2 ^ nat e else 1 / 2 ^ nat (- e))"

definition floor_log2 :: "rat \<Rightarrow> int" where
  "floor_log2 x =
     (if 1 \<le> x then bit_length \<lfloor>x\<rfloor> - 1 else - bit_length (\<lceil>1 / x\<rceil> - 1))"

definition round_half_even :: "rat \<Rightarrow> int" where
  "round_half_even x =
     (let n = \<lfloor>x\<rfloor>; d = x - of_int n
      in if d < 1 / 2 then n else if 1 / 2 < d then n + 1 else if even n then n else n + 1)"

definition nearest_double :: "rat \<Rightarrow> rat" where
  "nearest_double x =
     (if x = 0 then 0
      else let ulp = pow2 (max (floor_log2 \<bar>x\<bar>) (- 1022) - 52)
           in of_int (round_half_even (x / ulp)) * ulp)"

definition double_overflow :: "rat \<Rightarrow> bool" where
  "double_overflow x \<longleftrightarrow> 2 ^ 1024 \<le> \<bar>nearest_double x\<bar>"

text \<open>
  The operations \<^verbatim>\<open>+\<close>, \<^verbatim>\<open>-\<close>, \<^verbatim>\<open>*\<close> and \<^verbatim>\<open>/\<close> on floats, and the conversion of an
  integer that takes part in them; the divisor is not 0 where \<open>float_truediv\<close> is used.
  The quotient of two integers is rounded once, as \<^verbatim>\<open>int.__truediv__\<close> does.
\<close>

definition float_add :: "rat \<Rightarrow> rat \<Rightarrow> rat" where
  "float_add x y = nearest_double (x + y)"

definition float_sub :: "rat \<Rightarrow> rat \<Rightarrow> rat" where
  "float_sub x y = nearest_double (x - y)"

definition float_mul :: "rat \<Rightarrow> rat \<Rightarrow> rat" where
  "float_mul x y = nearest_double (x * y)"

definition float_truediv :: "rat \<Rightarrow> rat \<Rightarrow> rat" where
  "float_truediv x y = nearest_double (x / y)"

definition float_of_int :: "int \<Rightarrow> rat" where
  "float_of_int i = nearest_double (of_int i)"

definition int_truediv :: "int \<Rightarrow> int \<Rightarrow> rat" where
  "int_truediv i j = nearest_double (of_int i / of_int j)"

section \<open>Data of the universal client\<close>

text \<open>
  The dataclasses of \<^verbatim>\<open>mcp_universal_client.py\<close>. Field names carry a prefix where two
  classes use the same name (\<^verbatim>\<open>name\<close>, \<^verbatim>\<open>tool_name\<close>, \<^verbatim>\<open>server_name\<close>). Left out:
  \<^verbatim>\<open>headers\<close> and \<^verbatim>\<open>auth_token\<close> of a server, \<^verbatim>\<open>examples\<close> of a schema,
  \<^verbatim>\<open>raw_response\<close> of a response and \<^verbatim>\<open>features\<close> of the capabilities; no function
  modelled here reads them.
\<close>

datatype transport_type = HTTP | WEBSOCKET | SSE | STDIO | UNIX_SOCKET

record mcp_server_config =
  cfg_name :: string
  cfg_url :: string
  cfg_transport :: transport_type
  cfg_priority :: int
  cfg_timeout :: int
  cfg_retry_count :: int
  cfg_enabled :: bool

record standardized_schema =
  schema_name :: string
  schema_description :: string
  parameters :: "(string \<times> pyval) list"
  required :: "string list"
  returns :: "string option"

record normalized_response =
  success :: bool
  data :: pyval
  error :: "string option"
  resp_tool_name :: string
  execution_time_ms :: int
  resp_server_name :: string

record server_capabilities =
  caps_server_name :: string
  version :: pyval
  transport_types :: "transport_type list"
  tools :: "standardized_schema list"
  metadata :: "(string \<times> pyval) list"

record mcp_client =
  servers :: "mcp_server_config list"
  capabilities :: "string \<rightharpoonup> server_capabilities"
  tools_cache :: "string \<rightharpoonup> standardized_schema"
  server_health :: "string \<rightharpoonup> bool"

text \<open>
  A server is usable when it is enabled and its last recorded health is good: the test
  \<^verbatim>\<open>server.enabled and self._server_health.get(server.name, False)\<close> of
  \<^verbatim>\<open>_select_server_for_tool\<close>.
\<close>

definition server_usable :: "mcp_client \<Rightarrow> string \<Rightarrow> bool" where
  "server_usable c n =
     (list_ex (\<lambda>s. cfg_name s = n \<and> cfg_enabled s) (servers c) \<and> server_health c n = Some True)"

section \<open>Tool registry\<close>

text \<open>
  \<^verbatim>\<open>tool_registry.py\<close>. An intent is the string value of its \<^verbatim>\<open>IntentType\<close>.
  \<^verbatim>\<open>server_tools\<close> is a dictionary in insertion order (its order decides a full tie
  in the selection), the other dictionaries are maps.
\<close>

record tool_mapping =
  intent :: string
  primary_tools :: "string list"
  fallback_tools :: "string list"
  required_params :: "string list"
  optional_params :: "string list"

record tool_performance =
  perf_tool_name :: string
  perf_server_name :: string
  perf_success_count :: int
  perf_failure_count :: int
  avg_response_time_ms :: rat
  last_used :: rat
  last_success :: rat
  last_failure :: rat
  error_patterns :: "string list"

record fallback_chain =
  primary_tool :: string
  fallbacks :: "string list"
  max_fallback_attempts :: int

record tool_registry =
  client :: mcp_client
  tool_mappings :: "string \<rightharpoonup> tool_mapping"
  performance_metrics :: "string \<rightharpoonup> tool_performance"
  server_tools :: "(string \<times> string set) list"
  fallback_chains :: "string \<rightharpoonup> fallback_chain"

definition new_tool_performance :: "string \<Rightarrow> string \<Rightarrow> tool_performance" where
  "new_tool_performance tool server =
     \<lparr>perf_tool_name = tool, perf_server_name = server, perf_success_count = 0,
      perf_failure_count = 0, avg_response_time_ms = 0, last_used = 0, last_success = 0,
      last_failure = 0, error_patterns = []\<rparr>"

definition perf_key_of :: "string \<Rightarrow> string \<Rightarrow> string" where
  "perf_key_of server tool = server @ '':'' @ tool"

text \<open>
  \<^verbatim>\<open>_find_best_server_for_tool\<close>. Every entry of \<^verbatim>\<open>server_tools\<close> that holds the tool
  and has a performance entry becomes a candidate with its score; the candidates are
  sorted by \<^verbatim>\<open>(score, last_success)\<close> with \<^verbatim>\<open>reverse=True\<close> and the first is returned.
  Python's sort is stable, also when reversed: \<open>sort_desc\<close> is that sort. The score
  is computed in doubles: the literals \<^verbatim>\<open>0.7\<close> and \<^verbatim>\<open>0.3\<close> are the doubles nearest to
  7/10 and 3/10, and the quotients, the products and the sum are each rounded.
\<close>

record candidate =
  cand_server_name :: string
  cand_tool_name :: string
  cand_score :: rat
  cand_last_success :: rat

definition success_rate :: "tool_performance \<Rightarrow> rat" where
  "success_rate p =
     (if perf_success_count p + perf_failure_count p > 0
      then int_truediv (perf_success_count p) (perf_success_count p + perf_failure_count p)
      else 1 / 2)"

definition score_of :: "tool_performance \<Rightarrow> rat" where
  "score_of p =
     float_add (float_mul (success_rate p) (nearest_double (7 / 10)))
       (float_mul (float_truediv 1000 (max (avg_response_time_ms p) 1)) (nearest_double (3 / 10)))"

definition candidate_of :: "string \<Rightarrow> string \<Rightarrow> tool_performance \<Rightarrow> candidate" where
  "candidate_of server tool p =
     \<lparr>cand_server_name = server, cand_tool_name = tool, cand_score = score_of p,
      cand_last_success = last_success p\<rparr>"

fun candidate_servers ::
    "string \<Rightarrow> (string \<rightharpoonup> tool_performance) \<Rightarrow> (string \<times> string set) list \<Rightarrow> candidate list" where
  "candidate_servers tool metrics [] = []"
| "candidate_servers tool metrics ((server, ts) # rest) =
     (if tool \<in> ts then
        (case metrics (perf_key_of server tool) of
           Some p \<Rightarrow> candidate_of server tool p # candidate_servers tool metrics rest
         | None \<Rightarrow> candidate_servers tool metrics rest)
      else candidate_servers tool metrics rest)"

definition candidate_key :: "candidate \<Rightarrow> rat \<times> rat" where
  "candidate_key c = (cand_score c, cand_last_success c)"

fun insert_desc :: "('a \<Rightarrow> 'k::linorder) \<Rightarrow> 'a \<Rightarrow> 'a list \<Rightarrow> 'a list" where
  "insert_desc f x [] = [x]"
| "insert_desc f x (y # ys) = (if f y \<le> f x then x # y # ys else y # insert_desc f x ys)"

definition sort_desc :: "('a \<Rightarrow> 'k::linorder) \<Rightarrow> 'a list \<Rightarrow> 'a list" where
  "sort_desc f xs = foldr (insert_desc f) xs []"

definition find_best_server_for_tool :: "string \<Rightarrow> tool_registry \<Rightarrow> (string \<times> string) option" where
  "find_best_server_for_tool tool reg =
     (case sort_desc candidate_key (candidate_servers tool (performance_metrics reg) (server_tools reg)) of
        [] \<Rightarrow> None
      | best # _ \<Rightarrow> Some (cand_tool_name best, cand_server_name best))"

text \<open>\<^verbatim>\<open>select_optimal_tool\<close>: the first primary tool that resolves, else the first fallback tool.\<close>

fun first_resolved :: "string list \<Rightarrow> tool_registry \<Rightarrow> (string \<times> string) option" where
  "first_resolved [] reg = None"
| "first_resolved (t # ts) reg =
     (case find_best_server_for_tool t reg of Some r \<Rightarrow> Some r | None \<Rightarrow> first_resolved ts reg)"

definition select_optimal_tool :: "string \<Rightarrow> tool_registry \<Rightarrow> (string \<times> string) option" where
  "select_optimal_tool i reg =
     (case tool_mappings reg i of
        None \<Rightarrow> None
      | Some m \<Rightarrow>
          (case first_resolved (primary_tools m) reg of
             Some r \<Rightarrow> Some r
           | None \<Rightarrow> first_resolved (fallback_tools m) reg))"

text \<open>
  \<^verbatim>\<open>_execute_tool_with_tracking\<close>. The call of \<^verbatim>\<open>execute_tool_with_retry\<close> is the
  environment's part: an \<open>execution\<close> gives what the call returned or raised, the
  measured \<^verbatim>\<open>execution_time\<close> in milliseconds and the clock reading used for the
  timestamps. \<open>track_outcome\<close> is the update of the performance entry; the average
  is computed in doubles, each operation rounded. The whole body
  is inside \<^verbatim>\<open>try\<close>, so a division by a zero \<^verbatim>\<open>total_calls\<close> ends in the
  \<^verbatim>\<open>except\<close> branch, on the entry as changed so far.
\<close>

datatype exec_outcome = Returned normalized_response | Raised string

record execution =
  outcome :: exec_outcome
  latency_ms :: rat
  finished_at :: rat

definition failed_execution :: "rat \<Rightarrow> tool_performance \<Rightarrow> tool_performance" where
  "failed_execution now p =
     p\<lparr>perf_failure_count := perf_failure_count p + 1, last_failure := now, last_used := now\<rparr>"

definition track_outcome ::
    "string \<Rightarrow> string \<Rightarrow> execution \<Rightarrow> tool_performance \<Rightarrow> normalized_response \<times> tool_performance" where
  "track_outcome tool server ex p =
     (let now = finished_at ex;
          raised = (\<lambda>msg q. (\<lparr>success = False, data = PNone,
                                error = Some (''Tool execution failed: '' @ msg),
                                resp_tool_name = tool, execution_time_ms = 0,
                                resp_server_name = server\<rparr>, failed_execution now q))
      in case outcome ex of
           Raised msg \<Rightarrow> raised msg p
         | Returned response \<Rightarrow>
             if success response then
               (let p1 = p\<lparr>perf_success_count := perf_success_count p + 1, last_success := now\<rparr>;
                    total_calls = perf_success_count p1 + perf_failure_count p1
                in if total_calls = 0 then raised ''float division by zero'' p1
                   else (response,
                         p1\<lparr>avg_response_time_ms :=
                               float_truediv
                                 (float_add
                                    (float_mul (avg_response_time_ms p1) (float_of_int (total_calls - 1)))
                                    (latency_ms ex))
                                 (float_of_int total_calls),
                            last_used := now\<rparr>))
             else
               (let p1 = p\<lparr>perf_failure_count := perf_failure_count p + 1, last_failure := now\<rparr>;
                    p2 = (case error response of
                            None \<Rightarrow> p1
                          | Some e \<Rightarrow>
                              if e \<noteq> [] \<and> length (error_patterns p1) < 10 \<and> e \<notin> set (error_patterns p1)
                              then p1\<lparr>error_patterns := error_patterns p1 @ [take 100 e]\<rparr>
                              else p1)
                in (response, p2\<lparr>last_used := now\<rparr>)))"

definition execute_tool_with_tracking ::
    "string \<Rightarrow> string \<Rightarrow> execution \<Rightarrow> tool_registry \<Rightarrow> normalized_response \<times> tool_registry" where
  "execute_tool_with_tracking tool server ex reg =
     (let perf_key = perf_key_of server tool;
          performance = (case performance_metrics reg perf_key of
                           None \<Rightarrow> new_tool_performance tool server
                         | Some p \<Rightarrow> p);
          (response, p') = track_outcome tool server ex performance
      in (response, reg\<lparr>performance_metrics := (performance_metrics reg)(perf_key \<mapsto> p')\<rparr>))"

text \<open>
  \<^verbatim>\<open>execute_with_fallback\<close>. \<open>run n tool server\<close> is the execution the environment
  gives to the \<open>n\<close>-th attempt. The third component of the result lists the responses
  of the attempts made, in order; the code returns only the first component and logs
  each attempt.
\<close>

fun walk_fallback_chain ::
    "(nat \<Rightarrow> string \<Rightarrow> string \<Rightarrow> execution) \<Rightarrow> nat \<Rightarrow> normalized_response \<Rightarrow> string list
      \<Rightarrow> tool_registry \<Rightarrow> normalized_response list
      \<Rightarrow> normalized_response \<times> tool_registry \<times> normalized_response list" where
  "walk_fallback_chain run n response [] reg attempts = (response, reg, attempts)"
| "walk_fallback_chain run n response (fallback_tool # rest) reg attempts =
     (case find_best_server_for_tool fallback_tool reg of
        None \<Rightarrow> walk_fallback_chain run n response rest reg attempts
      | Some (fallback_tool_name, fallback_server) \<Rightarrow>
          (let (fallback_response, reg1) =
                 execute_tool_with_tracking fallback_tool_name fallback_server
                   (run n fallback_tool_name fallback_server) reg
           in if success fallback_response
              then (fallback_response, reg1, attempts @ [fallback_response])
              else walk_fallback_chain run (Suc n) response rest reg1
                     (attempts @ [fallback_response])))"

definition execute_with_fallback ::
    "(nat \<Rightarrow> string \<Rightarrow> string \<Rightarrow> execution) \<Rightarrow> string \<Rightarrow> tool_registry
      \<Rightarrow> normalized_response \<times> tool_registry \<times> normalized_response list" where
  "execute_with_fallback run i reg =
     (case select_optimal_tool i reg of
        None \<Rightarrow>
          (\<lparr>success = False, data = PNone,
            error = Some (''No available tool for intent: '' @ i),
            resp_tool_name = [], execution_time_ms = 0, resp_server_name = []\<rparr>, reg, [])
      | Some (tool, server) \<Rightarrow>
          (let (response, reg1) = execute_tool_with_tracking tool server (run 0 tool server) reg
           in if \<not> success response
              then (case fallback_chains reg1 tool of
                      Some chain \<Rightarrow> walk_fallback_chain run 1 response (fallbacks chain) reg1 [response]
                    | None \<Rightarrow> (response, reg1, [response]))
              else (response, reg1, [response])))"

text \<open>Example registries and executions.\<close>

definition example_server :: "string \<Rightarrow> bool \<Rightarrow> mcp_server_config" where
  "example_server n en =
     \<lparr>cfg_name = n, cfg_url = ''http://'' @ n @ '':8010/mcp'', cfg_transport = HTTP,
      cfg_priority = 1, cfg_timeout = 30, cfg_retry_count = 3, cfg_enabled = en\<rparr>"

definition example_mappings :: "string \<rightharpoonup> tool_mapping" where
  "example_mappings =
     [''list_jobs'' \<mapsto>
        \<lparr>intent = ''list_jobs'', primary_tools = [''list_jobs'', ''list_jenkins_jobs''],
         fallback_tools = [''search_jobs'', ''get_jobs''], required_params = [],
         optional_params = []\<rparr>]"

definition example_chains :: "string \<rightharpoonup> fallback_chain" where
  "example_chains =
     [''list_jobs'' \<mapsto>
        \<lparr>primary_tool = ''list_jobs'',
         fallbacks = [''search_jobs'', ''get_jobs'', ''list_jenkins_jobs''],
         max_fallback_attempts = 3\<rparr>]"

definition stale_registry :: tool_registry where
  "stale_registry =
     \<lparr>client = \<lparr>servers = [example_server ''jenkins'' False], capabilities = Map.empty,
                tools_cache = Map.empty, server_health = [''jenkins'' \<mapsto> False]\<rparr>,
      tool_mappings = example_mappings,
      performance_metrics =
        [''jenkins:list_jobs'' \<mapsto> new_tool_performance ''list_jobs'' ''jenkins''],
      server_tools = [(''jenkins'', {''list_jobs''})],
      fallback_chains = example_chains\<rparr>"

definition two_server_registry :: tool_registry where
  "two_server_registry =
     \<lparr>client = \<lparr>servers = [example_server ''alpha'' True, example_server ''beta'' True],
                capabilities = Map.empty, tools_cache = Map.empty,
                server_health = [''alpha'' \<mapsto> True, ''beta'' \<mapsto> True]\<rparr>,
      tool_mappings = example_mappings,
      performance_metrics =
        [''alpha:list_jobs'' \<mapsto>
           (new_tool_performance ''list_jobs'' ''alpha'')
             \<lparr>perf_success_count := 1, perf_failure_count := 1, avg_response_time_ms := 2000,
              last_success := 50\<rparr>,
         ''beta:list_jobs'' \<mapsto>
           (new_tool_performance ''list_jobs'' ''beta'')
             \<lparr>perf_success_count := 3, perf_failure_count := 1, avg_response_time_ms := 2000,
              last_success := 40\<rparr>],
      server_tools = [(''alpha'', {''list_jobs''}), (''beta'', {''list_jobs'', ''search_jobs''})],
      fallback_chains = example_chains\<rparr>"

definition rounding_registry :: tool_registry where
  "rounding_registry =
     two_server_registry\<lparr>performance_metrics :=
        [''alpha:list_jobs'' \<mapsto>
           (new_tool_performance ''list_jobs'' ''alpha'')
             \<lparr>perf_success_count := 1, perf_failure_count := 0, avg_response_time_ms := 500,
              last_success := 50\<rparr>,
         ''beta:list_jobs'' \<mapsto>
           (new_tool_performance ''list_jobs'' ''beta'')
             \<lparr>perf_success_count := 1, perf_failure_count := 6, avg_response_time_ms := 250,
              last_success := 40\<rparr>]\<rparr>"

definition failing_run :: "nat \<Rightarrow> string \<Rightarrow> string \<Rightarrow> execution" where
  "failing_run n tool server =
     \<lparr>outcome = Returned
        \<lparr>success = False, data = PNone,
         error = Some (if tool = ''list_jobs'' then ''connection refused''
                       else ''search index unavailable''),
         resp_tool_name = tool, execution_time_ms = 10, resp_server_name = server\<rparr>,
      latency_ms = 10, finished_at = of_nat n + 1\<rparr>"

definition fallback_registry :: tool_registry where
  "fallback_registry =
     \<lparr>client = \<lparr>servers = [example_server ''jenkins'' True], capabilities = Map.empty,
                tools_cache = Map.empty, server_health = [''jenkins'' \<mapsto> True]\<rparr>,
      tool_mappings = example_mappings,
      performance_metrics =
        [''jenkins:list_jobs'' \<mapsto> new_tool_performance ''list_jobs'' ''jenkins'',
         ''jenkins:search_jobs'' \<mapsto> new_tool_performance ''search_jobs'' ''jenkins''],
      server_tools = [(''jenkins'', {''list_jobs'', ''search_jobs''})],
      fallback_chains = example_chains\<rparr>"

section \<open>Circuit breaker of the recovery manager\<close>








text \<open>
  \<^verbatim>\<open>handle_failure\<close>, as far as the breaker is concerned. The classification of the
  error does not touch the breakers, so the failure type is an argument. So is what
  \<^verbatim>\<open>_generate_recovery_action\<close> does when it is reached: \<open>generated\<close> is the action it
  returns, or the exception it raises. It raises \<^verbatim>\<open>AttributeError\<close> whenever the
  pattern's strategy is \<^verbatim>\<open>retry_with_fallback\<close> and the step names a tool, since
  \<^verbatim>\<open>_find_fallback_tools\<close> calls \<^verbatim>\<open>tool_registry.get_available_tools\<close>, which
  \<^verbatim>\<open>ToolRegistry\<close> does not have; the exception leaves \<^verbatim>\<open>handle_failure\<close> before the
  breaker is updated. The result is what \<^verbatim>\<open>handle_failure\<close> returns or raises, and the
  breakers as it leaves them. \<open>t_check\<close> and \<open>t_update\<close> are the clock readings of the
  check and of the update.
\<close>

datatype recovery_strategy =
    RETRY_SAME | RETRY_WITH_FALLBACK | MODIFY_PARAMETERS | CHANGE_APPROACH
  | REQUEST_USER_INPUT | GRACEFUL_DEGRADATION | ABANDON_GOAL






section \<open>Cache\<close>

text \<open>
  \<^verbatim>\<open>CacheItem\<close> and \<^verbatim>\<open>IntelligentCache\<close> of \<^verbatim>\<open>performance_manager.py\<close>. The dictionary
  \<^verbatim>\<open>cache\<close> is an association list in insertion order, the ordered dictionary
  \<^verbatim>\<open>access_order\<close> the list of its keys, least recently used first.
  \<^verbatim>\<open>cache_size_bytes\<close> is the counter \<^verbatim>\<open>_size_bytes\<close>. The three clock readings of one
  \<^verbatim>\<open>set\<close> and the two of one \<^verbatim>\<open>get\<close> are one reading \<open>now\<close>.
\<close>

record cache_item =
  item_key :: string
  item_value :: pyval
  created_at :: rat
  expires_at :: "rat option"
  access_count :: int
  last_accessed :: rat
  size_bytes :: nat

record intelligent_cache =
  max_size :: int
  default_ttl :: rat
  cache :: "(string \<times> cache_item) list"
  access_order :: "string list"
  cache_size_bytes :: int
  max_size_bytes :: int

definition new_cache :: "int \<Rightarrow> rat \<Rightarrow> intelligent_cache" where
  "new_cache ms ttl =
     \<lparr>max_size = ms, default_ttl = ttl, cache = [], access_order = [], cache_size_bytes = 0,
      max_size_bytes = 100 * 1024 * 1024\<rparr>"

definition is_expired :: "rat \<Rightarrow> cache_item \<Rightarrow> bool" where
  "is_expired now item = (case expires_at item of None \<Rightarrow> False | Some e \<Rightarrow> now > e)"

definition touch :: "rat \<Rightarrow> cache_item \<Rightarrow> cache_item" where
  "touch now item = item\<lparr>access_count := access_count item + 1, last_accessed := now\<rparr>"

definition remove_item :: "string \<Rightarrow> intelligent_cache \<Rightarrow> intelligent_cache" where
  "remove_item k c =
     (case map_of (cache c) k of
        None \<Rightarrow> c
      | Some item \<Rightarrow>
          c\<lparr>cache := AList.delete k (cache c),
            access_order := removeAll k (access_order c),
            cache_size_bytes := cache_size_bytes c - int (size_bytes item)\<rparr>)"

text \<open>
  \<^verbatim>\<open>get\<close>: a missing or expired key gives \<^verbatim>\<open>None\<close>; a hit is touched and moved to the
  end of the access order (\<^verbatim>\<open>move_to_end\<close> raises \<^verbatim>\<open>KeyError\<close> for a key the access
  order does not hold).
\<close>

definition cache_get :: "rat \<Rightarrow> string \<Rightarrow> intelligent_cache \<Rightarrow> py_error + (pyval \<times> intelligent_cache)" where
  "cache_get now k c =
     (case map_of (cache c) k of
        None \<Rightarrow> Inr (PNone, c)
      | Some item \<Rightarrow>
          if is_expired now item then Inr (PNone, remove_item k c)
          else if k \<notin> set (access_order c) then Inl KeyError
          else Inr (item_value item,
                    c\<lparr>cache := AList.update k (touch now item) (cache c),
                      access_order := removeAll k (access_order c) @ [k]\<rparr>))"

text \<open>
  \<^verbatim>\<open>_evict_lru\<close> and the loop of \<^verbatim>\<open>set\<close> that makes room. The loop runs forever when
  the access order starts with a key the cache does not hold (\<^verbatim>\<open>_remove_item\<close> then
  removes nothing), so it is a partial function: \<open>None\<close> means that it does not return.
\<close>

definition evict_lru :: "intelligent_cache \<Rightarrow> bool \<times> intelligent_cache" where
  "evict_lru c =
     (case access_order c of
        [] \<Rightarrow> (False, c)
      | lru_key # _ \<Rightarrow> (True, remove_item lru_key c))"

definition needs_room :: "int \<Rightarrow> intelligent_cache \<Rightarrow> bool" where
  "needs_room sz c \<longleftrightarrow>
     int (length (cache c)) \<ge> max_size c \<or> cache_size_bytes c + sz > max_size_bytes c"

partial_function (option) make_room :: "int \<Rightarrow> intelligent_cache \<Rightarrow> (bool \<times> intelligent_cache) option" where
  "make_room sz c =
     (if needs_room sz c
      then (if fst (evict_lru c) then make_room sz (snd (evict_lru c)) else Some (False, c))
      else Some (True, c))"

text \<open>
  \<^verbatim>\<open>set\<close>. \<open>json_size\<close> stands for the size computation at the start of \<^verbatim>\<open>set\<close>: the
  length of the UTF-8 encoding of \<^verbatim>\<open>json.dumps(value, default=str)\<close>, or 1024 when that
  raises.
\<close>

definition effective_ttl :: "rat option \<Rightarrow> intelligent_cache \<Rightarrow> rat" where
  "effective_ttl ttl c = (case ttl of None \<Rightarrow> default_ttl c | Some t \<Rightarrow> t)"

definition cache_set ::
    "(pyval \<Rightarrow> nat) \<Rightarrow> rat \<Rightarrow> string \<Rightarrow> pyval \<Rightarrow> rat option \<Rightarrow> intelligent_cache
      \<Rightarrow> (bool \<times> intelligent_cache) option" where
  "cache_set json_size now k v ttl_arg c =
     (let ttl = effective_ttl ttl_arg c;
          sz = json_size v
      in case make_room (int sz) c of
           None \<Rightarrow> None
         | Some (False, c1) \<Rightarrow> Some (False, c1)
         | Some (True, c1) \<Rightarrow>
             (let c2 = remove_item k c1;
                  item = \<lparr>item_key = k, item_value = v, created_at = now,
                          expires_at = (if ttl > 0 then Some (now + ttl) else None),
                          access_count = 0, last_accessed = now, size_bytes = sz\<rparr>
              in Some (True,
                       c2\<lparr>cache := AList.update k item (cache c2),
                          access_order := (if k \<in> set (access_order c2) then access_order c2
                                           else access_order c2 @ [k]),
                          cache_size_bytes := cache_size_bytes c2 + int sz\<rparr>)))"

text \<open>\<^verbatim>\<open>delete\<close>, \<^verbatim>\<open>clear\<close>, and one pass of the periodic \<^verbatim>\<open>_cleanup_loop\<close>.\<close>

definition cache_delete :: "string \<Rightarrow> intelligent_cache \<Rightarrow> bool \<times> intelligent_cache" where
  "cache_delete k c = (if map_of (cache c) k \<noteq> None then (True, remove_item k c) else (False, c))"

definition cache_clear :: "intelligent_cache \<Rightarrow> intelligent_cache" where
  "cache_clear c = c\<lparr>cache := [], access_order := [], cache_size_bytes := 0\<rparr>"

definition cleanup_expired :: "rat \<Rightarrow> intelligent_cache \<Rightarrow> intelligent_cache" where
  "cleanup_expired now c =
     fold remove_item (map fst (filter (\<lambda>(k, item). is_expired now item) (cache c))) c"

text \<open>
  The consistency of a cache: the keys of \<^verbatim>\<open>cache\<close> are distinct, \<^verbatim>\<open>access_order\<close>
  holds exactly these keys, each once, and the counter is the sum of the item sizes.
  \<open>within_limits\<close> is the bound on the item count and on the bytes held;
  \<open>evict_first n\<close> removes the first \<open>n\<close> keys of the access order.
\<close>

definition cache_wf :: "intelligent_cache \<Rightarrow> bool" where
  "cache_wf c \<longleftrightarrow>
     distinct (map fst (cache c)) \<and> distinct (access_order c) \<and>
     set (access_order c) = set (map fst (cache c)) \<and>
     cache_size_bytes c = sum_list (map (\<lambda>(k, item). int (size_bytes item)) (cache c))"

definition within_limits :: "intelligent_cache \<Rightarrow> bool" where
  "within_limits c \<longleftrightarrow>
     int (length (cache c)) \<le> max_size c \<and>
     sum_list (map (\<lambda>(k, item). int (size_bytes item)) (cache c)) \<le> max_size_bytes c"

definition evict_first :: "nat \<Rightarrow> intelligent_cache \<Rightarrow> intelligent_cache" where
  "evict_first n c = fold remove_item (take n (access_order c)) c"

text \<open>
  The states of a cache made by \<^verbatim>\<open>IntelligentCache(max_size, default_ttl)\<close> and then used
  through its methods and its cleanup task, at any clock readings.
\<close>

inductive cache_reachable :: "int \<Rightarrow> rat \<Rightarrow> intelligent_cache \<Rightarrow> bool" for ms :: int and ttl :: rat where
  reach_new: "cache_reachable ms ttl (new_cache ms ttl)"
| reach_get: "cache_reachable ms ttl c \<Longrightarrow> cache_get now k c = Inr (v, c') \<Longrightarrow> cache_reachable ms ttl c'"
| reach_set: "cache_reachable ms ttl c \<Longrightarrow> cache_set json_size now k v t c = Some (b, c')
                \<Longrightarrow> cache_reachable ms ttl c'"
| reach_delete: "cache_reachable ms ttl c \<Longrightarrow> cache_reachable ms ttl (snd (cache_delete k c))"
| reach_clear: "cache_reachable ms ttl c \<Longrightarrow> cache_reachable ms ttl (cache_clear c)"
| reach_cleanup: "cache_reachable ms ttl c \<Longrightarrow> cache_reachable ms ttl (cleanup_expired now c)"

text \<open>
  The same states with the clock readings in the order of the calls:
  \<open>cache_reachable_until ms ttl t c\<close> when no reading so far is later than \<open>t\<close>.
  \<open>last_access c k\<close> is the time stamp \<^verbatim>\<open>last_accessed\<close> of the item held for \<open>k\<close>, and
  \<open>recency_ordered t c\<close> says that the access order lists the keys by that time stamp,
  the earliest first, none later than \<open>t\<close>.
\<close>

inductive cache_reachable_until :: "int \<Rightarrow> rat \<Rightarrow> rat \<Rightarrow> intelligent_cache \<Rightarrow> bool"
  for ms :: int and ttl :: rat where
  until_new: "cache_reachable_until ms ttl t (new_cache ms ttl)"
| until_get: "cache_reachable_until ms ttl t c \<Longrightarrow> t \<le> now \<Longrightarrow> cache_get now k c = Inr (v, c')
                \<Longrightarrow> cache_reachable_until ms ttl now c'"
| until_set: "cache_reachable_until ms ttl t c \<Longrightarrow> t \<le> now
                \<Longrightarrow> cache_set json_size now k v tt c = Some (b, c')
                \<Longrightarrow> cache_reachable_until ms ttl now c'"
| until_delete: "cache_reachable_until ms ttl t c
                \<Longrightarrow> cache_reachable_until ms ttl t (snd (cache_delete k c))"
| until_clear: "cache_reachable_until ms ttl t c \<Longrightarrow> cache_reachable_until ms ttl t (cache_clear c)"
| until_cleanup: "cache_reachable_until ms ttl t c \<Longrightarrow> t \<le> now
                \<Longrightarrow> cache_reachable_until ms ttl now (cleanup_expired now c)"

definition last_access :: "intelligent_cache \<Rightarrow> string \<Rightarrow> rat" where
  "last_access c k = (case map_of (cache c) k of Some item \<Rightarrow> last_accessed item | None \<Rightarrow> 0)"

definition recency_ordered :: "rat \<Rightarrow> intelligent_cache \<Rightarrow> bool" where
  "recency_ordered t c \<longleftrightarrow>
     sorted (map (last_access c) (access_order c)) \<and>
     (\<forall>k\<in>set (access_order c). last_access c k \<le> t)"

text \<open>Example caches and size functions.\<close>

definition cache_after_get :: "rat \<Rightarrow> string \<Rightarrow> intelligent_cache \<Rightarrow> intelligent_cache" where
  "cache_after_get now k c = (case cache_get now k c of Inr (_, c') \<Rightarrow> c' | Inl _ \<Rightarrow> c)"

definition cache_after_set ::
    "(pyval \<Rightarrow> nat) \<Rightarrow> rat \<Rightarrow> string \<Rightarrow> pyval \<Rightarrow> rat option \<Rightarrow> intelligent_cache \<Rightarrow> intelligent_cache" where
  "cache_after_set json_size now k v ttl c =
     (case cache_set json_size now k v ttl c of Some (_, c') \<Rightarrow> c' | None \<Rightarrow> c)"

definition small_size :: "pyval \<Rightarrow> nat" where
  "small_size v = 10"

definition large_size :: "pyval \<Rightarrow> nat" where
  "large_size v = (if v = PStr ''huge'' then 200000000 else if v = PStr ''big'' then 60000000 else 50000000)"

definition two_item_cache :: intelligent_cache where
  "two_item_cache =
     \<lparr>max_size = 2, default_ttl = 300,
      cache = [(''a'', \<lparr>item_key = ''a'', item_value = PStr ''A'', created_at = 0,
                        expires_at = Some 5, access_count = 0, last_accessed = 0,
                        size_bytes = 10\<rparr>),
               (''b'', \<lparr>item_key = ''b'', item_value = PStr ''B'', created_at = 1,
                        expires_at = Some 101, access_count = 0, last_accessed = 1,
                        size_bytes = 10\<rparr>)],
      access_order = [''a'', ''b''], cache_size_bytes = 20, max_size_bytes = 104857600\<rparr>"

text \<open>
  The cache of maximal size 2 after \<^verbatim>\<open>set("a")\<close> at time 0, \<^verbatim>\<open>set("b")\<close> at time 1 and
  \<^verbatim>\<open>get("a")\<close> at time 2.
\<close>

definition touched_cache :: intelligent_cache where
  "touched_cache =
     cache_after_get 2 ''a''
       (cache_after_set small_size 1 ''b'' (PStr ''B'') (Some 100)
          (cache_after_set small_size 0 ''a'' (PStr ''A'') (Some 100) (new_cache 2 300)))"

section \<open>Connection pool\<close>

text \<open>
  \<^verbatim>\<open>ConnectionPool\<close> of \<^verbatim>\<open>performance_manager.py\<close>: the list \<^verbatim>\<open>_pool\<close> of idle
  connections, the set \<^verbatim>\<open>_used_connections\<close> and the flag \<^verbatim>\<open>_closed\<close>. A connection is
  a value of any type. What the connection factory does when \<^verbatim>\<open>acquire\<close> awaits it is
  an argument: no factory set, a factory that raised (or timed out), or a connection. A
  failing \<^verbatim>\<open>acquire\<close> leaves the pool as it was. \<^verbatim>\<open>release\<close> and \<^verbatim>\<open>close\<close> also return
  the connections they tear down.
\<close>

record 'c connection_pool =
  server_url :: string
  max_connections :: int
  pool :: "'c list"
  used_connections :: "'c set"
  pool_closed :: bool

datatype 'c factory_outcome = Created 'c | Factory_raised py_error

definition new_connection_pool :: "string \<Rightarrow> int \<Rightarrow> 'c connection_pool" where
  "new_connection_pool url n =
     \<lparr>server_url = url, max_connections = n, pool = [], used_connections = {}, pool_closed = False\<rparr>"

definition acquire ::
    "'c factory_outcome option \<Rightarrow> 'c connection_pool \<Rightarrow> py_error + ('c \<times> 'c connection_pool)" where
  "acquire factory p =
     (if pool_closed p then Inl (RuntimeError ''Connection pool is closed'')
      else if pool p \<noteq> [] then
        (let connection = last (pool p)
         in Inr (connection,
                 p\<lparr>pool := butlast (pool p),
                   used_connections := insert connection (used_connections p)\<rparr>))
      else if int (card (used_connections p)) < max_connections p then
        (case factory of
           None \<Rightarrow> Inl (RuntimeError ''Connection factory not set'')
         | Some (Factory_raised e) \<Rightarrow> Inl e
         | Some (Created connection) \<Rightarrow>
             Inr (connection, p\<lparr>used_connections := insert connection (used_connections p)\<rparr>))
      else Inl (RuntimeError ''Connection pool exhausted''))"

definition release :: "'c \<Rightarrow> 'c connection_pool \<Rightarrow> 'c connection_pool \<times> 'c list" where
  "release connection p =
     (if connection \<in> used_connections p then
        (let p1 = p\<lparr>used_connections := used_connections p - {connection}\<rparr>
         in if \<not> pool_closed p1 \<and> int (length (pool p1)) < max_connections p1
            then (p1\<lparr>pool := pool p1 @ [connection]\<rparr>, [])
            else (p1, [connection]))
      else (p, []))"

definition close_pool :: "'c connection_pool \<Rightarrow> 'c connection_pool \<times> 'c set" where
  "close_pool p =
     (p\<lparr>pool_closed := True, pool := [], used_connections := {}\<rparr>,
      set (pool p) \<union> used_connections p)"

text \<open>The states of a pool made by \<^verbatim>\<open>ConnectionPool(server_url, max_connections)\<close>.\<close>

inductive pool_reachable :: "string \<Rightarrow> int \<Rightarrow> 'c connection_pool \<Rightarrow> bool"
  for url :: string and n :: int where
  pool_new: "pool_reachable url n (new_connection_pool url n)"
| pool_acquire: "pool_reachable url n p \<Longrightarrow> acquire factory p = Inr (connection, p')
                   \<Longrightarrow> pool_reachable url n p'"
| pool_release: "pool_reachable url n p \<Longrightarrow> pool_reachable url n (fst (release connection p))"
| pool_close: "pool_reachable url n p \<Longrightarrow> pool_reachable url n (fst (close_pool p))"

definition pool_invariant :: "int \<Rightarrow> 'c connection_pool \<Rightarrow> bool" where
  "pool_invariant n p \<longleftrightarrow>
     finite (used_connections p) \<and> max_connections p = n \<and>
     int (length (pool p)) + int (card (used_connections p)) \<le> n"

definition busy_pool :: "nat connection_pool" where
  "busy_pool =
     \<lparr>server_url = ''http://jenkins:8010/mcp'', max_connections = 2, pool = [],
      used_connections = {1, 2}, pool_closed = False\<rparr>"

section \<open>Performance manager\<close>

text \<open>
  \<^verbatim>\<open>PerformanceMetrics\<close> and the part of \<^verbatim>\<open>PerformanceManager\<close> that
  \<^verbatim>\<open>cached_operation\<close> uses: the cache and the dictionary \<^verbatim>\<open>metrics\<close>. The record of a
  \<^verbatim>\<open>PerformanceMetrics\<close> is \<open>operation_metrics\<close>, its \<^verbatim>\<open>min_duration_ms\<close> is \<open>None\<close> for
  the initial \<^verbatim>\<open>float('inf')\<close>.
\<close>

record operation_metrics =
  operation_name :: string
  total_calls :: int
  total_duration_ms :: rat
  min_duration_ms :: "rat option"
  max_duration_ms :: rat
  cache_hits :: int
  cache_misses :: int
  error_count :: int
  last_call_time :: rat

record performance_manager =
  pm_cache :: intelligent_cache
  pm_metrics :: "string \<rightharpoonup> operation_metrics"

definition new_performance_manager :: performance_manager where
  "new_performance_manager = \<lparr>pm_cache = new_cache 1000 300, pm_metrics = Map.empty\<rparr>"

text \<open>
  \<^verbatim>\<open>self.metrics[operation_name]\<close>. The dictionary is a
  \<^verbatim>\<open>defaultdict(PerformanceMetrics)\<close>: for a key it does not hold it calls
  \<^verbatim>\<open>PerformanceMetrics()\<close> with no argument, and that raises \<^verbatim>\<open>TypeError\<close>, since the
  field \<^verbatim>\<open>operation_name\<close> has no default. Nothing is stored then.
\<close>

definition metrics_getitem :: "string \<Rightarrow> performance_manager \<Rightarrow> py_error + operation_metrics" where
  "metrics_getitem name pm =
     (case pm_metrics pm name of None \<Rightarrow> Inl TypeError | Some m \<Rightarrow> Inr m)"

text \<open>The four recording methods; each changes the entry it was given in place.\<close>

definition record_cache_hit :: "string \<Rightarrow> performance_manager \<Rightarrow> py_error + performance_manager" where
  "record_cache_hit name pm =
     (case metrics_getitem name pm of
        Inl e \<Rightarrow> Inl e
      | Inr m \<Rightarrow> Inr (pm\<lparr>pm_metrics := (pm_metrics pm)(name \<mapsto> m\<lparr>cache_hits := cache_hits m + 1\<rparr>)\<rparr>))"

definition record_cache_miss :: "string \<Rightarrow> performance_manager \<Rightarrow> py_error + performance_manager" where
  "record_cache_miss name pm =
     (case metrics_getitem name pm of
        Inl e \<Rightarrow> Inl e
      | Inr m \<Rightarrow> Inr (pm\<lparr>pm_metrics := (pm_metrics pm)(name \<mapsto> m\<lparr>cache_misses := cache_misses m + 1\<rparr>)\<rparr>))"

definition record_operation_success ::
    "rat \<Rightarrow> rat \<Rightarrow> string \<Rightarrow> performance_manager \<Rightarrow> py_error + performance_manager" where
  "record_operation_success duration_ms now name pm =
     (case metrics_getitem name pm of
        Inl e \<Rightarrow> Inl e
      | Inr m \<Rightarrow>
          Inr (pm\<lparr>pm_metrics := (pm_metrics pm)(name \<mapsto>
                 m\<lparr>total_calls := total_calls m + 1,
                   total_duration_ms := float_add (total_duration_ms m) duration_ms,
                   min_duration_ms := (case min_duration_ms m of
                                         None \<Rightarrow> Some duration_ms
                                       | Some d \<Rightarrow> Some (min d duration_ms)),
                   max_duration_ms := max (max_duration_ms m) duration_ms,
                   last_call_time := now\<rparr>)\<rparr>))"

definition record_operation_error ::
    "rat \<Rightarrow> rat \<Rightarrow> string \<Rightarrow> performance_manager \<Rightarrow> py_error + performance_manager" where
  "record_operation_error duration_ms now name pm =
     (case metrics_getitem name pm of
        Inl e \<Rightarrow> Inl e
      | Inr m \<Rightarrow>
          Inr (pm\<lparr>pm_metrics := (pm_metrics pm)(name \<mapsto>
                 m\<lparr>total_calls := total_calls m + 1,
                   error_count := error_count m + 1,
                   total_duration_ms := float_add (total_duration_ms m) duration_ms,
                   last_call_time := now\<rparr>)\<rparr>))"

text \<open>
  A recording call \<^verbatim>\<open>self._record_...(operation.__name__, ...)\<close>: reading \<^verbatim>\<open>__name__\<close>
  raises \<^verbatim>\<open>AttributeError\<close> for a callable that has none (\<open>None\<close>).
\<close>

definition record_named ::
    "(string \<Rightarrow> performance_manager \<Rightarrow> py_error + performance_manager) \<Rightarrow> string option
      \<Rightarrow> performance_manager \<Rightarrow> py_error + performance_manager" where
  "record_named recorder op_name pm =
     (case op_name of None \<Rightarrow> Inl AttributeError | Some name \<Rightarrow> recorder name pm)"

text \<open>
  \<^verbatim>\<open>cached_operation\<close>. \<open>op_name\<close> is the operation's \<^verbatim>\<open>__name__\<close>, \<open>operation\<close> what
  awaiting it gives, should it be awaited (\<open>Inl\<close> when it raises). The clock readings
  are those of \<^verbatim>\<open>get\<close>, before and after the operation, of \<^verbatim>\<open>set\<close> and of the
  recording. The result is what the call returns or raises, whether the operation was
  executed, and the manager as the call leaves it; \<open>None\<close> when \<^verbatim>\<open>set\<close> does not return.
  The miss is recorded before the \<^verbatim>\<open>try\<close> statement and before the operation is
  awaited. Inside \<^verbatim>\<open>try\<close>, an exception of the operation or of the recording of the
  success is recorded as an error and raised again, unless that recording raises.
\<close>

definition cached_operation ::
    "(pyval \<Rightarrow> nat) \<Rightarrow> rat \<Rightarrow> rat \<Rightarrow> rat \<Rightarrow> rat \<Rightarrow> rat \<Rightarrow> string \<Rightarrow> string option
      \<Rightarrow> py_error + pyval \<Rightarrow> rat option \<Rightarrow> string \<Rightarrow> performance_manager
      \<Rightarrow> ((py_error + pyval) \<times> bool \<times> performance_manager) option" where
  "cached_operation json_size t_get t_start t_end t_set t_record k op_name operation ttl
       cache_key_prefix pm =
     (let cache_key = cache_key_prefix @ '':'' @ k;
          duration_ms = float_mul (float_sub t_end t_start) 1000;
          failed = (\<lambda>e pm1.
            case record_named (record_operation_error duration_ms t_record) op_name pm1 of
              Inl e1 \<Rightarrow> Some (Inl e1, True, pm1)
            | Inr pm2 \<Rightarrow> Some (Inl e, True, pm2))
      in case cache_get t_get cache_key (pm_cache pm) of
        Inl e \<Rightarrow> Some (Inl e, False, pm)
      | Inr (cached_result, c1) \<Rightarrow>
          (let pm1 = pm\<lparr>pm_cache := c1\<rparr> in
           if cached_result \<noteq> PNone then
             (case record_named record_cache_hit op_name pm1 of
                Inl e \<Rightarrow> Some (Inl e, False, pm1)
              | Inr pm2 \<Rightarrow> Some (Inr cached_result, False, pm2))
           else
             (case record_named record_cache_miss op_name pm1 of
                Inl e \<Rightarrow> Some (Inl e, False, pm1)
              | Inr pm2 \<Rightarrow>
                  (case operation of
                     Inl e \<Rightarrow> failed e pm2
                   | Inr result \<Rightarrow>
                       (case cache_set json_size t_set cache_key result ttl (pm_cache pm2) of
                          None \<Rightarrow> None
                        | Some (_, c2) \<Rightarrow>
                            (let pm3 = pm2\<lparr>pm_cache := c2\<rparr> in
                             case record_named (record_operation_success duration_ms t_record)
                                    op_name pm3 of
                               Inl e \<Rightarrow> failed e pm3
                             | Inr pm4 \<Rightarrow> Some (Inr result, True, pm4)))))))"

text \<open>
  The managers that \<^verbatim>\<open>PerformanceManager()\<close> and calls of \<^verbatim>\<open>cached_operation\<close> give.
\<close>

inductive manager_reachable :: "performance_manager \<Rightarrow> bool" where
  manager_new: "manager_reachable new_performance_manager"
| manager_call:
    "manager_reachable pm \<Longrightarrow>
     cached_operation json_size t_get t_start t_end t_set t_record k op_name operation ttl
       cache_key_prefix pm = Some (r, executed, pm') \<Longrightarrow>
     manager_reachable pm'"

section \<open>Parameter validation\<close>

text \<open>
  \<^verbatim>\<open>validate_parameters\<close> and \<^verbatim>\<open>_convert_parameter_type\<close> of
  \<^verbatim>\<open>mcp_universal_client.py\<close>. What depends on the interpreter is an argument:
  \<^item> \<open>float_of_str\<close>: \<^verbatim>\<open>float\<close> on a string, \<open>None\<close> when it raises \<^verbatim>\<open>ValueError\<close>;
  \<^item> \<open>str_of\<close>: \<^verbatim>\<open>str\<close> on a value that is not a string;
  \<^item> \<open>int_max_str_digits\<close>: \<^verbatim>\<open>sys.get_int_max_str_digits()\<close>, 4300 by default from
    Python 3.11 on and 0 where there is no limit, and \<open>int_limit_message\<close>: the
    message of the \<^verbatim>\<open>ValueError\<close> that \<^verbatim>\<open>int\<close> raises for so many digits.

  \<^verbatim>\<open>str.isdigit\<close> holds of a non-empty string of the digits 0 to 9 and of the
  superscripts 1, 2 and 3 (code points 185, 178 and 179), the other digit characters
  below 256. \<^verbatim>\<open>int\<close> takes the digits 0 to 9 only and raises \<^verbatim>\<open>ValueError\<close> for a
  superscript; it counts the leading digits against the limit first. \<^verbatim>\<open>str.lower\<close>
  maps A to Z and the capital letters from 192 to 222 (not the sign 215).
  \<^verbatim>\<open>float\<close> of an integer rounds to the nearest double and raises \<^verbatim>\<open>OverflowError\<close>
  beyond the doubles.
\<close>

record py_builtins =
  float_of_str :: "string \<Rightarrow> pyfloat option"
  str_of :: "pyval \<Rightarrow> string"
  int_max_str_digits :: nat
  int_limit_message :: "nat \<Rightarrow> string"

definition py_str :: "py_builtins \<Rightarrow> pyval \<Rightarrow> string" where
  "py_str bi v = (case v of PStr s \<Rightarrow> s | _ \<Rightarrow> str_of bi v)"

definition is_ascii_digit :: "char \<Rightarrow> bool" where
  "is_ascii_digit c \<longleftrightarrow> 48 \<le> (of_char c :: nat) \<and> (of_char c :: nat) \<le> 57"

definition is_digit_char :: "char \<Rightarrow> bool" where
  "is_digit_char c \<longleftrightarrow> is_ascii_digit c \<or> (of_char c :: nat) \<in> {178, 179, 185}"

definition isdigit :: "string \<Rightarrow> bool" where
  "isdigit s \<longleftrightarrow> s \<noteq> [] \<and> list_all is_digit_char s"

definition int_of_digits :: "string \<Rightarrow> int" where
  "int_of_digits s = foldl (\<lambda>n c. 10 * n + (int (of_char c) - 48)) 0 s"

definition quoted :: "string \<Rightarrow> string" where
  "quoted s = [CHR 0x27] @ s @ [CHR 0x27]"

text \<open>\<^verbatim>\<open>int(value)\<close> for a string of which \<^verbatim>\<open>isdigit\<close> holds.\<close>

definition int_of_str :: "py_builtins \<Rightarrow> string \<Rightarrow> py_error + pyval" where
  "int_of_str bi s =
     (let digits = length (takeWhile is_ascii_digit s)
      in if 0 < int_max_str_digits bi \<and> int_max_str_digits bi < digits
         then Inl (ValueError (int_limit_message bi digits))
         else if \<not> list_all is_ascii_digit s
         then Inl (ValueError (''invalid literal for int() with base 10: '' @ quoted s))
         else Inr (PInt (int_of_digits s)))"

text \<open>\<^verbatim>\<open>float(value)\<close> for an integer.\<close>

definition float_of_pyint :: "int \<Rightarrow> py_error + pyval" where
  "float_of_pyint i =
     (if double_overflow (of_int i) then Inl OverflowError
      else Inr (PFloat (Float_finite (float_of_int i))))"

definition lower_char :: "char \<Rightarrow> char" where
  "lower_char c =
     (case map_of (zip
        [CHR 0x41, CHR 0x42, CHR 0x43, CHR 0x44, CHR 0x45, CHR 0x46, CHR 0x47, CHR 0x48,
         CHR 0x49, CHR 0x4A, CHR 0x4B, CHR 0x4C, CHR 0x4D, CHR 0x4E, CHR 0x4F, CHR 0x50,
         CHR 0x51, CHR 0x52, CHR 0x53, CHR 0x54, CHR 0x55, CHR 0x56, CHR 0x57, CHR 0x58,
         CHR 0x59, CHR 0x5A, CHR 0xC0, CHR 0xC1, CHR 0xC2, CHR 0xC3, CHR 0xC4, CHR 0xC5,
         CHR 0xC6, CHR 0xC7, CHR 0xC8, CHR 0xC9, CHR 0xCA, CHR 0xCB, CHR 0xCC, CHR 0xCD,
         CHR 0xCE, CHR 0xCF, CHR 0xD0, CHR 0xD1, CHR 0xD2, CHR 0xD3, CHR 0xD4, CHR 0xD5,
         CHR 0xD6, CHR 0xD8, CHR 0xD9, CHR 0xDA, CHR 0xDB, CHR 0xDC, CHR 0xDD, CHR 0xDE]
        [CHR 0x61, CHR 0x62, CHR 0x63, CHR 0x64, CHR 0x65, CHR 0x66, CHR 0x67, CHR 0x68,
         CHR 0x69, CHR 0x6A, CHR 0x6B, CHR 0x6C, CHR 0x6D, CHR 0x6E, CHR 0x6F, CHR 0x70,
         CHR 0x71, CHR 0x72, CHR 0x73, CHR 0x74, CHR 0x75, CHR 0x76, CHR 0x77, CHR 0x78,
         CHR 0x79, CHR 0x7A, CHR 0xE0, CHR 0xE1, CHR 0xE2, CHR 0xE3, CHR 0xE4, CHR 0xE5,
         CHR 0xE6, CHR 0xE7, CHR 0xE8, CHR 0xE9, CHR 0xEA, CHR 0xEB, CHR 0xEC, CHR 0xED,
         CHR 0xEE, CHR 0xEF, CHR 0xF0, CHR 0xF1, CHR 0xF2, CHR 0xF3, CHR 0xF4, CHR 0xF5,
         CHR 0xF6, CHR 0xF8, CHR 0xF9, CHR 0xFA, CHR 0xFB, CHR 0xFC, CHR 0xFD, CHR 0xFE]) c of
        Some l \<Rightarrow> l
      | None \<Rightarrow> c)"

definition lower :: "string \<Rightarrow> string" where
  "lower s = map lower_char s"

definition cannot_convert :: "py_builtins \<Rightarrow> pyval \<Rightarrow> string \<Rightarrow> py_error" where
  "cannot_convert bi v target =
     ValueError (''Cannot convert '' @ quoted (py_str bi v) @ '' to '' @ target)"

text \<open>
  \<^verbatim>\<open>_convert_parameter_type\<close>. A Python \<^verbatim>\<open>bool\<close> is an \<^verbatim>\<open>int\<close>, so it passes the
  integer test. In the \<^verbatim>\<open>boolean\<close> branch a value that is neither a \<^verbatim>\<open>bool\<close> nor a
  \<^verbatim>\<open>str\<close> matches no inner case and the function falls off its end: it returns
  \<^verbatim>\<open>None\<close>. In the \<^verbatim>\<open>number\<close> branch the \<^verbatim>\<open>ValueError\<close> and the \<^verbatim>\<open>TypeError\<close> of
  \<^verbatim>\<open>float\<close> are turned into the function's own \<^verbatim>\<open>ValueError\<close>, its \<^verbatim>\<open>OverflowError\<close>
  is not.
\<close>

definition convert_parameter_type :: "py_builtins \<Rightarrow> pyval \<Rightarrow> pyval \<Rightarrow> py_error + pyval" where
  "convert_parameter_type bi v expected_type =
     (if expected_type = PStr ''integer'' then
        (case v of
           PInt i \<Rightarrow> Inr v
         | PBool b \<Rightarrow> Inr v
         | PStr s \<Rightarrow> if isdigit s then int_of_str bi s
                     else Inl (cannot_convert bi v ''integer'')
         | _ \<Rightarrow> Inl (cannot_convert bi v ''integer''))
      else if expected_type = PStr ''boolean'' then
        (case v of
           PBool b \<Rightarrow> Inr v
         | PStr s \<Rightarrow>
             if lower s \<in> set [''true'', ''yes'', ''1''] then Inr (PBool True)
             else if lower s \<in> set [''false'', ''no'', ''0''] then Inr (PBool False)
             else Inl (cannot_convert bi v ''boolean'')
         | _ \<Rightarrow> Inr PNone)
      else if expected_type = PStr ''number'' then
        (case v of
           PBool b \<Rightarrow> Inr (PFloat (Float_finite (if b then 1 else 0)))
         | PInt i \<Rightarrow> float_of_pyint i
         | PFloat f \<Rightarrow> Inr v
         | PStr s \<Rightarrow>
             (case float_of_str bi s of
                Some f \<Rightarrow> Inr (PFloat f)
              | None \<Rightarrow> Inl (cannot_convert bi v ''number''))
         | _ \<Rightarrow> Inl (cannot_convert bi v ''number''))
      else Inr (PStr (py_str bi v)))"

text \<open>
  \<^verbatim>\<open>validate_parameters\<close>. The schema is what \<^verbatim>\<open>_find_tool_schema\<close> found. The type of
  a parameter is \<^verbatim>\<open>param_def.get("type", "string")\<close>, which raises \<^verbatim>\<open>AttributeError\<close>
  when the definition is not a dictionary; nothing catches it. Of the exceptions of a
  conversion only \<^verbatim>\<open>ValueError\<close> is caught: its message becomes an error of the result.
\<close>

record validation_result =
  valid :: bool
  errors :: "string list"
  converted_params :: "(string \<times> pyval) list"

definition param_type_of :: "pyval \<Rightarrow> py_error + pyval" where
  "param_type_of param_def =
     (case param_def of
        PDict kvs \<Rightarrow> (case map_of kvs ''type'' of None \<Rightarrow> Inr (PStr ''string'') | Some t \<Rightarrow> Inr t)
      | _ \<Rightarrow> Inl AttributeError)"

fun convert_all ::
    "py_builtins \<Rightarrow> standardized_schema \<Rightarrow> (string \<times> pyval) list \<Rightarrow> string list
      \<Rightarrow> (string \<times> pyval) list \<Rightarrow> py_error + (string list \<times> (string \<times> pyval) list)" where
  "convert_all bi sch [] errs conv = Inr (errs, conv)"
| "convert_all bi sch ((param_name, param_value) # rest) errs conv =
     (case map_of (parameters sch) param_name of
        Some param_def \<Rightarrow>
          (case param_type_of param_def of
             Inl e \<Rightarrow> Inl e
           | Inr param_type \<Rightarrow>
               (case convert_parameter_type bi param_value param_type of
                  Inr converted_value \<Rightarrow>
                    convert_all bi sch rest errs (AList.update param_name converted_value conv)
                | Inl (ValueError msg) \<Rightarrow>
                    convert_all bi sch rest
                      (errs @ [''Parameter '' @ quoted param_name @ '': '' @ msg]) conv
                | Inl e \<Rightarrow> Inl e))
      | None \<Rightarrow> convert_all bi sch rest errs (AList.update param_name param_value conv))"

definition validate_parameters ::
    "py_builtins \<Rightarrow> standardized_schema option \<Rightarrow> string \<Rightarrow> (string \<times> pyval) list
      \<Rightarrow> py_error + validation_result" where
  "validate_parameters bi tool_schema tool_name params =
     (case tool_schema of
        None \<Rightarrow>
          Inr \<lparr>valid = False, errors = [''Tool '' @ quoted tool_name @ '' not found''],
               converted_params = []\<rparr>
      | Some sch \<Rightarrow>
          (let missing = map (\<lambda>r. ''Required parameter '' @ quoted r @ '' is missing'')
                           (filter (\<lambda>r. r \<notin> set (map fst params)) (required sch))
           in case convert_all bi sch params missing [] of
                Inl e \<Rightarrow> Inl e
              | Inr (errs, conv) \<Rightarrow>
                  Inr \<lparr>valid = (length errs = 0), errors = errs, converted_params = conv\<rparr>))"

text \<open>
  \<^verbatim>\<open>execute_tool_with_retry\<close> from the validation to its retry loop: either the failure
  response returned without any call of the transport, or the converted parameters that
  every attempt of the loop hands to \<^verbatim>\<open>_execute_tool_on_server\<close>.
\<close>

fun join :: "string \<Rightarrow> string list \<Rightarrow> string" where
  "join sep [] = []"
| "join sep [x] = x"
| "join sep (x # y # ys) = x @ sep @ join sep (y # ys)"

datatype prepared_call = Rejected normalized_response | Send "(string \<times> pyval) list"

definition prepare_call ::
    "py_builtins \<Rightarrow> string \<Rightarrow> standardized_schema option \<Rightarrow> string \<Rightarrow> (string \<times> pyval) list
      \<Rightarrow> py_error + prepared_call" where
  "prepare_call bi target_server_name tool_schema tool_name params =
     (case validate_parameters bi tool_schema tool_name params of
        Inl e \<Rightarrow> Inl e
      | Inr validation \<Rightarrow>
          if \<not> valid validation then
            Inr (Rejected
              \<lparr>success = False, data = PNone,
               error = Some (''Parameter validation failed: '' @ join ''; '' (errors validation)),
               resp_tool_name = tool_name, execution_time_ms = 0,
               resp_server_name = target_server_name\<rparr>)
          else Inr (Send (converted_params validation)))"

text \<open>An example schema; builtins that are never consulted.\<close>

definition no_builtins :: py_builtins where
  "no_builtins =
     \<lparr>float_of_str = (\<lambda>s. None), str_of = (\<lambda>v. ''?''), int_max_str_digits = 4300,
      int_limit_message = (\<lambda>n. ''Exceeds the limit'')\<rparr>"

definition trigger_schema :: standardized_schema where
  "trigger_schema =
     \<lparr>schema_name = ''trigger_job'', schema_description = ''Start a build'',
      parameters = [(''job_name'', PDict [(''type'', PStr ''string'')]),
                    (''build_number'', PDict [(''type'', PStr ''integer'')]),
                    (''force'', PDict [(''type'', PStr ''boolean'')])],
      required = [''job_name''], returns = None\<rparr>"

section \<open>Capability discovery\<close>

text \<open>
  \<^verbatim>\<open>normalize_tool_schema\<close>: a raw tool is an object with a name, as the protocol
  library returns it, a dictionary, or anything else. The input schema of an object is
  a dictionary with the optional entries \<^verbatim>\<open>properties\<close>, \<^verbatim>\<open>required\<close> and \<^verbatim>\<open>returns\<close>.
\<close>

record raw_input_schema =
  properties :: "(string \<times> pyval) list option"
  required_names :: "string list option"
  returns_hint :: "string option"

datatype raw_tool =
    Tool_object string "string option" "raw_input_schema option"
  | Tool_dict "string option" "string option" "(string \<times> pyval) list option"
      "string list option" "string option"
  | Tool_other

fun normalize_tool_schema :: "raw_tool \<Rightarrow> standardized_schema" where
  "normalize_tool_schema (Tool_object n d input_schema) =
     \<lparr>schema_name = n,
      schema_description = (case d of None \<Rightarrow> [] | Some t \<Rightarrow> t),
      parameters = (case input_schema of
                      None \<Rightarrow> []
                    | Some i \<Rightarrow> (case properties i of None \<Rightarrow> [] | Some ps \<Rightarrow> ps)),
      required = (case input_schema of
                    None \<Rightarrow> []
                  | Some i \<Rightarrow> (case required_names i of None \<Rightarrow> [] | Some rs \<Rightarrow> rs)),
      returns = (case input_schema of None \<Rightarrow> None | Some i \<Rightarrow> returns_hint i)\<rparr>"
| "normalize_tool_schema (Tool_dict n d ps rs ret) =
     \<lparr>schema_name = (case n of None \<Rightarrow> [] | Some t \<Rightarrow> t),
      schema_description = (case d of None \<Rightarrow> [] | Some t \<Rightarrow> t),
      parameters = (case ps of None \<Rightarrow> [] | Some p \<Rightarrow> p),
      required = (case rs of None \<Rightarrow> [] | Some r \<Rightarrow> r),
      returns = ret\<rparr>"
| "normalize_tool_schema Tool_other =
     \<lparr>schema_name = ''unknown'', schema_description = [], parameters = [], required = [],
      returns = None\<rparr>"

text \<open>
  \<^verbatim>\<open>discover_server_capabilities\<close> and \<^verbatim>\<open>_discover_http_capabilities\<close>. What the
  server does is the environment's part: the connection, the initialisation or the
  listing of the tools raises, or the server answers with its \<^verbatim>\<open>server_info\<close> (when it
  has one that is a dictionary) and its tools. The loop over the tools reads
  \<^verbatim>\<open>tool.name\<close>, which raises \<^verbatim>\<open>AttributeError\<close> for a tool that is not an object; the
  entries of \<^verbatim>\<open>_tools_cache\<close> written before stay. A transport other than HTTP returns
  the empty capabilities and changes nothing.
\<close>

datatype http_discovery =
    Connect_failed string
  | Listed "(string \<times> pyval) list option" "raw_tool list"

definition empty_capabilities :: "string \<Rightarrow> server_capabilities" where
  "empty_capabilities n =
     \<lparr>caps_server_name = n, version = PStr ''unknown'', transport_types = [], tools = [],
      metadata = []\<rparr>"

fun is_tool_object :: "raw_tool \<Rightarrow> bool" where
  "is_tool_object (Tool_object n d i) = True"
| "is_tool_object _ = False"

fun add_tools ::
    "string \<Rightarrow> raw_tool list \<Rightarrow> standardized_schema list \<Rightarrow> (string \<rightharpoonup> standardized_schema)
      \<Rightarrow> py_error option \<times> standardized_schema list \<times> (string \<rightharpoonup> standardized_schema)" where
  "add_tools server [] schemas tc = (None, schemas, tc)"
| "add_tools server (tool # rest) schemas tc =
     (let schema = normalize_tool_schema tool
      in case tool of
           Tool_object n d i \<Rightarrow>
             add_tools server rest (schemas @ [schema]) (tc(server @ '':'' @ n \<mapsto> schema))
         | _ \<Rightarrow> (Some AttributeError, schemas @ [schema], tc))"

definition discovered_capabilities ::
    "string \<Rightarrow> (string \<times> pyval) list option \<Rightarrow> standardized_schema list \<Rightarrow> server_capabilities" where
  "discovered_capabilities n info schemas =
     \<lparr>caps_server_name = n,
      version = (case info of
                   None \<Rightarrow> PStr ''unknown''
                 | Some server_info \<Rightarrow>
                     (case map_of server_info ''version'' of None \<Rightarrow> PStr ''unknown'' | Some v \<Rightarrow> v)),
      transport_types = [HTTP],
      tools = schemas,
      metadata = (case info of None \<Rightarrow> [] | Some server_info \<Rightarrow> server_info)\<rparr>"

definition discover_server_capabilities ::
    "(mcp_server_config \<Rightarrow> http_discovery) \<Rightarrow> mcp_server_config \<Rightarrow> mcp_client
      \<Rightarrow> server_capabilities \<times> mcp_client" where
  "discover_server_capabilities env server c =
     (if cfg_transport server \<noteq> HTTP then (empty_capabilities (cfg_name server), c)
      else
        (case env server of
           Connect_failed msg \<Rightarrow>
             (empty_capabilities (cfg_name server),
              c\<lparr>server_health := (server_health c)(cfg_name server \<mapsto> False)\<rparr>)
         | Listed info raw_tools \<Rightarrow>
             (case add_tools (cfg_name server) raw_tools [] (tools_cache c) of
                (Some e, schemas, tc) \<Rightarrow>
                  (empty_capabilities (cfg_name server),
                   c\<lparr>tools_cache := tc,
                     server_health := (server_health c)(cfg_name server \<mapsto> False)\<rparr>)
              | (None, schemas, tc) \<Rightarrow>
                  (let caps = discovered_capabilities (cfg_name server) info schemas
                   in (caps,
                       c\<lparr>tools_cache := tc,
                         capabilities := (capabilities c)(cfg_name server \<mapsto> caps),
                         server_health := (server_health c)(cfg_name server \<mapsto> True)\<rparr>)))))"

text \<open>
  \<^verbatim>\<open>discover_all_servers\<close> starts one task for each enabled server and gathers them. A
  task writes \<^verbatim>\<open>capabilities\<close> and \<^verbatim>\<open>_server_health\<close> in one step without
  suspension, at its end, so a run is given by the order in which the tasks end: any
  order of the enabled servers.
\<close>

definition discover_all_servers ::
    "(mcp_server_config \<Rightarrow> http_discovery) \<Rightarrow> mcp_server_config list \<Rightarrow> mcp_client
      \<Rightarrow> (string \<rightharpoonup> server_capabilities) \<times> mcp_client" where
  "discover_all_servers env completion_order c =
     (let c' = fold (\<lambda>server st. snd (discover_server_capabilities env server st)) completion_order c
      in (capabilities c', c'))"

definition completion_order_of :: "mcp_client \<Rightarrow> mcp_server_config list \<Rightarrow> bool" where
  "completion_order_of c order \<longleftrightarrow>
     distinct order \<and> set order = {s \<in> set (servers c). cfg_enabled s}"

text \<open>Two servers: alpha answers with two tools, beta refuses the connection.\<close>

definition list_jobs_tool :: raw_tool where
  "list_jobs_tool =
     Tool_object ''list_jobs'' (Some ''List all jobs'')
       (Some \<lparr>properties = Some [(''recursive'', PDict [(''type'', PStr ''boolean'')])],
              required_names = Some [], returns_hint = None\<rparr>)"

definition get_job_info_tool :: raw_tool where
  "get_job_info_tool =
     Tool_object ''get_job_info'' None
       (Some \<lparr>properties = Some [(''job_name'', PDict [(''type'', PStr ''string'')])],
              required_names = Some [''job_name''], returns_hint = None\<rparr>)"

definition two_server_client :: mcp_client where
  "two_server_client =
     \<lparr>servers = [example_server ''alpha'' True, example_server ''beta'' True],
      capabilities = Map.empty, tools_cache = Map.empty, server_health = Map.empty\<rparr>"

definition beta_down :: "mcp_server_config \<Rightarrow> http_discovery" where
  "beta_down s =
     (if cfg_name s = ''alpha'' then Listed None [list_jobs_tool, get_job_info_tool]
      else Connect_failed ''connection refused'')"

definition stale_client :: mcp_client where
  "stale_client =
     two_server_client
       \<lparr>capabilities :=
          [''beta'' \<mapsto> discovered_capabilities ''beta'' None [normalize_tool_schema list_jobs_tool]],
        server_health := [''beta'' \<mapsto> True]\<rparr>"

definition websocket_client :: mcp_client where
  "websocket_client =
     \<lparr>servers = [(example_server ''gamma'' True)\<lparr>cfg_transport := WEBSOCKET\<rparr>],
      capabilities = Map.empty, tools_cache = Map.empty, server_health = Map.empty\<rparr>"

chapter \<open>Properties\<close>

section \<open>Server selection\<close>

lemma set_insert_desc: "set (insert_desc f x ys) = insert x (set ys)"
  by (induction ys) auto

lemma set_sort_desc: "set (sort_desc f xs) = set xs"
  by (induction xs) (auto simp: sort_desc_def set_insert_desc)

lemma sort_desc_Nil_iff: "sort_desc f xs = [] \<longleftrightarrow> xs = []"
  using set_sort_desc [of f xs] by (metis set_empty)

lemma hd_insert_desc:
  "hd (insert_desc f x ys) = (if ys = [] \<or> f (hd ys) \<le> f x then x else hd ys)"
  by (cases ys) auto

lemma sort_desc_Cons: "sort_desc f (x # xs) = insert_desc f x (sort_desc f xs)"
  by (simp add: sort_desc_def)

lemma hd_sort_desc_max:
  "xs \<noteq> [] \<Longrightarrow> hd (sort_desc f xs) \<in> set xs \<and> (\<forall>y\<in>set xs. f y \<le> f (hd (sort_desc f xs)))"
proof (induction xs)
  case Nil
  then show ?case by simp
next
  case (Cons x xs)
  show ?case
  proof (cases "xs = []")
    case True
    then show ?thesis by (simp add: sort_desc_def)
  next
    case False
    with Cons.IH have ih: "hd (sort_desc f xs) \<in> set xs"
      "\<forall>y\<in>set xs. f y \<le> f (hd (sort_desc f xs))" by auto
    from False have ne: "sort_desc f xs \<noteq> []" by (simp add: sort_desc_Nil_iff)
    show ?thesis
    proof (cases "f (hd (sort_desc f xs)) \<le> f x")
      case True
      then have "hd (sort_desc f (x # xs)) = x"
        by (simp add: sort_desc_Cons hd_insert_desc)
      with True ih show ?thesis by auto
    next
      case False
      then have "hd (sort_desc f (x # xs)) = hd (sort_desc f xs)"
        using ne by (simp add: sort_desc_Cons hd_insert_desc)
      with False ih show ?thesis by auto
    qed
  qed
qed

lemma candidate_servers_iff:
  "c \<in> set (candidate_servers tool metrics st) \<longleftrightarrow>
     (\<exists>server ts p. (server, ts) \<in> set st \<and> tool \<in> ts \<and> metrics (perf_key_of server tool) = Some p \<and>
        c = candidate_of server tool p)"
proof (induction st)
  case Nil
  then show ?case by simp
next
  case (Cons a st)
  obtain server ts where a: "a = (server, ts)" by (cases a)
  show ?case
  proof (cases "tool \<in> ts")
    case False
    then show ?thesis using Cons.IH a by auto
  next
    case True
    show ?thesis
    proof (cases "metrics (perf_key_of server tool)")
      case None
      then show ?thesis using Cons.IH a True by auto
    next
      case (Some p)
      then show ?thesis using Cons.IH a True by auto
    qed
  qed
qed

lemma pair_le_iff: "((a::rat), (b::rat)) \<le> (c, d) \<longleftrightarrow> a < c \<or> (a = c \<and> b \<le> d)"
  by (auto simp: less_eq_prod_def)

lemma candidate_key_of:
  "candidate_key (candidate_of s tool p) = (score_of p, last_success p)"
  by (simp add: candidate_key_def candidate_of_def)

lemma candidate_of_names:
  "cand_tool_name (candidate_of s tool p) = tool" "cand_server_name (candidate_of s tool p) = s"
  by (simp_all add: candidate_of_def)

lemma find_best_None_iff:
  "find_best_server_for_tool tool reg = None \<longleftrightarrow>
     candidate_servers tool (performance_metrics reg) (server_tools reg) = []"
proof -
  let ?cs = "candidate_servers tool (performance_metrics reg) (server_tools reg)"
  have "find_best_server_for_tool tool reg = None \<longleftrightarrow> sort_desc candidate_key ?cs = []"
    by (cases "sort_desc candidate_key ?cs") (simp_all add: find_best_server_for_tool_def)
  then show ?thesis by (simp add: sort_desc_Nil_iff)
qed

lemma find_best_Some:
  assumes "find_best_server_for_tool tool reg = Some (t, s)"
  shows "t = tool \<and> (\<exists>ts p. (s, ts) \<in> set (server_tools reg) \<and> tool \<in> ts \<and>
            performance_metrics reg (perf_key_of s tool) = Some p \<and>
            (\<forall>s' ts' p'. (s', ts') \<in> set (server_tools reg) \<and> tool \<in> ts' \<and>
                 performance_metrics reg (perf_key_of s' tool) = Some p' \<longrightarrow>
               score_of p' < score_of p \<or>
               (score_of p' = score_of p \<and> last_success p' \<le> last_success p)))"
proof -
  let ?cs = "candidate_servers tool (performance_metrics reg) (server_tools reg)"
  from assms obtain best rest where srt: "sort_desc candidate_key ?cs = best # rest"
    and t: "t = cand_tool_name best" and s: "s = cand_server_name best"
    by (auto simp: find_best_server_for_tool_def split: list.splits)
  then have ne: "?cs \<noteq> []" using sort_desc_Nil_iff [of candidate_key ?cs] by auto
  from hd_sort_desc_max [OF ne, of candidate_key] srt
  have mem: "best \<in> set ?cs" and mx: "\<forall>y\<in>set ?cs. candidate_key y \<le> candidate_key best" by auto
  from mem obtain s0 ts p where b: "(s0, ts) \<in> set (server_tools reg)" "tool \<in> ts"
      "performance_metrics reg (perf_key_of s0 tool) = Some p"
      "best = candidate_of s0 tool p"
    unfolding candidate_servers_iff by blast
  have s0: "s0 = s" and tt: "t = tool" using b(4) s t by (simp_all add: candidate_of_names)
  have "score_of p' < score_of p \<or> (score_of p' = score_of p \<and> last_success p' \<le> last_success p)"
    if "(s', ts') \<in> set (server_tools reg)" "tool \<in> ts'"
       "performance_metrics reg (perf_key_of s' tool) = Some p'" for s' ts' p'
  proof -
    have "candidate_of s' tool p' \<in> set ?cs"
      unfolding candidate_servers_iff using that by blast
    with mx have "candidate_key (candidate_of s' tool p') \<le> candidate_key best" by blast
    then show ?thesis unfolding b(4) candidate_key_of pair_le_iff .
  qed
  with b(1-3) s0 tt show ?thesis by blast
qed

text \<open>
  Claim C6, as the code has it. The candidates for a tool are the servers listed in
  \<^verbatim>\<open>server_tools\<close> with the tool that have a performance entry; whether a server is
  enabled or healthy is not looked at. No candidate gives no result. Otherwise the
  result is the tool with a candidate server whose score
  \<open>success_rate * 0.7 + (1000 / max avg_response_time_ms 1) * 0.3\<close> (success rate 0.5
  without recorded executions), computed in doubles with every operation rounded, is
  the highest, and among equal scores one whose \<^verbatim>\<open>last_success\<close> is the latest. The
  result is a function of the registry.
\<close>

theorem find_best_server_picks_top_scored:
  "(find_best_server_for_tool tool reg = None \<longleftrightarrow>
      candidate_servers tool (performance_metrics reg) (server_tools reg) = [])
   \<and> (\<forall>c. c \<in> set (candidate_servers tool (performance_metrics reg) (server_tools reg)) \<longleftrightarrow>
         (\<exists>s ts p. (s, ts) \<in> set (server_tools reg) \<and> tool \<in> ts \<and>
            performance_metrics reg (perf_key_of s tool) = Some p \<and> c = candidate_of s tool p))
   \<and> (\<forall>t s. find_best_server_for_tool tool reg = Some (t, s) \<longrightarrow>
         t = tool \<and>
         (\<exists>ts p. (s, ts) \<in> set (server_tools reg) \<and> tool \<in> ts \<and>
            performance_metrics reg (perf_key_of s tool) = Some p \<and>
            score_of p =
              float_add (float_mul (success_rate p) (nearest_double (7 / 10)))
                (float_mul (float_truediv 1000 (max (avg_response_time_ms p) 1))
                   (nearest_double (3 / 10))) \<and>
            success_rate p =
              (if perf_success_count p + perf_failure_count p > 0
               then int_truediv (perf_success_count p) (perf_success_count p + perf_failure_count p)
               else 1 / 2) \<and>
            (\<forall>s' ts' p'. (s', ts') \<in> set (server_tools reg) \<and> tool \<in> ts' \<and>
                 performance_metrics reg (perf_key_of s' tool) = Some p' \<longrightarrow>
               score_of p' < score_of p \<or>
               (score_of p' = score_of p \<and> last_success p' \<le> last_success p))))"
proof -
  have "t = tool \<and>
         (\<exists>ts p. (s, ts) \<in> set (server_tools reg) \<and> tool \<in> ts \<and>
            performance_metrics reg (perf_key_of s tool) = Some p \<and>
            score_of p =
              float_add (float_mul (success_rate p) (nearest_double (7 / 10)))
                (float_mul (float_truediv 1000 (max (avg_response_time_ms p) 1))
                   (nearest_double (3 / 10))) \<and>
            success_rate p =
              (if perf_success_count p + perf_failure_count p > 0
               then int_truediv (perf_success_count p) (perf_success_count p + perf_failure_count p)
               else 1 / 2) \<and>
            (\<forall>s' ts' p'. (s', ts') \<in> set (server_tools reg) \<and> tool \<in> ts' \<and>
                 performance_metrics reg (perf_key_of s' tool) = Some p' \<longrightarrow>
               score_of p' < score_of p \<or>
               (score_of p' = score_of p \<and> last_success p' \<le> last_success p)))"
    if "find_best_server_for_tool tool reg = Some (t, s)" for t s
  proof -
    from find_best_Some [OF that] obtain ts p where
      "t = tool" "(s, ts) \<in> set (server_tools reg)" "tool \<in> ts"
      "performance_metrics reg (perf_key_of s tool) = Some p"
      "\<forall>s' ts' p'. (s', ts') \<in> set (server_tools reg) \<and> tool \<in> ts' \<and>
                 performance_metrics reg (perf_key_of s' tool) = Some p' \<longrightarrow>
               score_of p' < score_of p \<or>
               (score_of p' = score_of p \<and> last_success p' \<le> last_success p)"
      by blast
    moreover have "score_of p =
              float_add (float_mul (success_rate p) (nearest_double (7 / 10)))
                (float_mul (float_truediv 1000 (max (avg_response_time_ms p) 1))
                   (nearest_double (3 / 10)))"
      by (simp add: score_of_def)
    moreover have "success_rate p =
              (if perf_success_count p + perf_failure_count p > 0
               then int_truediv (perf_success_count p) (perf_success_count p + perf_failure_count p)
               else 1 / 2)"
      by (simp add: success_rate_def)
    ultimately show ?thesis by blast
  qed
  then show ?thesis
    using find_best_None_iff [of tool reg] candidate_servers_iff [of _ tool "performance_metrics reg" "server_tools reg"]
    by blast
qed

lemma score_examples:
  "score_of ((new_tool_performance ''list_jobs'' ''alpha'')
      \<lparr>perf_success_count := 1, perf_failure_count := 1, avg_response_time_ms := 2000,
       last_success := 50\<rparr>) = 1 / 2"
  "score_of ((new_tool_performance ''list_jobs'' ''beta'')
      \<lparr>perf_success_count := 3, perf_failure_count := 1, avg_response_time_ms := 2000,
       last_success := 40\<rparr>) = 6079859496950169 / 9007199254740992"
  "score_of ((new_tool_performance ''list_jobs'' ''alpha'')
      \<lparr>perf_success_count := 1, perf_failure_count := 0, avg_response_time_ms := 500,
       last_success := 50\<rparr>) = 5854679515581644 / 4503599627370496"
  "score_of ((new_tool_performance ''list_jobs'' ''beta'')
      \<lparr>perf_success_count := 1, perf_failure_count := 6, avg_response_time_ms := 250,
       last_success := 40\<rparr>) = 5854679515581645 / 4503599627370496"
  by code_simp+

lemma two_server_best:
  "find_best_server_for_tool ''list_jobs'' two_server_registry = Some (''list_jobs'', ''beta'')"
  by (simp add: find_best_server_for_tool_def two_server_registry_def perf_key_of_def
      candidate_of_def sort_desc_def candidate_key_def score_examples less_eq_prod_def)

lemma rounding_decides:
  "find_best_server_for_tool ''list_jobs'' rounding_registry = Some (''list_jobs'', ''beta'')"
  by (simp add: find_best_server_for_tool_def rounding_registry_def two_server_registry_def
      perf_key_of_def candidate_of_def sort_desc_def candidate_key_def score_examples
      less_eq_prod_def)

text \<open>
  With two servers for \<^verbatim>\<open>list_jobs\<close>, alpha at one success in two calls and beta at
  three in four, both at 2000 ms, beta has the higher score and is selected. With alpha
  at one success in one call and 500 ms, and beta at one success in seven calls and
  250 ms, both scores are 13/10 in exact arithmetic; in doubles alpha's is
  1.2999999999999998 and beta's 1.3, so beta is selected, against alpha's later success.
\<close>

theorem find_best_server_picks_top_scored_witness:
  "find_best_server_for_tool ''list_jobs'' two_server_registry = Some (''list_jobs'', ''beta'')
   \<and> candidate_servers ''list_jobs'' (performance_metrics two_server_registry)
        (server_tools two_server_registry) \<noteq> []
   \<and> (\<exists>ts p. (''beta'', ts) \<in> set (server_tools two_server_registry) \<and> ''list_jobs'' \<in> ts \<and>
         performance_metrics two_server_registry (perf_key_of ''beta'' ''list_jobs'') = Some p)
   \<and> find_best_server_for_tool ''list_jobs'' rounding_registry = Some (''list_jobs'', ''beta'')
   \<and> (\<exists>p p'. performance_metrics rounding_registry (perf_key_of ''beta'' ''list_jobs'') = Some p \<and>
         performance_metrics rounding_registry (perf_key_of ''alpha'' ''list_jobs'') = Some p' \<and>
         score_of p' < score_of p \<and> last_success p < last_success p')"
proof -
  note inst = find_best_server_picks_top_scored [of "''list_jobs''" two_server_registry]
  have best: "find_best_server_for_tool ''list_jobs'' two_server_registry = Some (''list_jobs'', ''beta'')"
    by (rule two_server_best)
  from inst best have "candidate_servers ''list_jobs'' (performance_metrics two_server_registry)
        (server_tools two_server_registry) \<noteq> []" by simp
  moreover from inst best have "\<exists>ts p. (''beta'', ts) \<in> set (server_tools two_server_registry) \<and> ''list_jobs'' \<in> ts \<and>
         performance_metrics two_server_registry (perf_key_of ''beta'' ''list_jobs'') = Some p"
    by blast
  moreover have "\<exists>p p'. performance_metrics rounding_registry (perf_key_of ''beta'' ''list_jobs'') = Some p \<and>
         performance_metrics rounding_registry (perf_key_of ''alpha'' ''list_jobs'') = Some p' \<and>
         score_of p' < score_of p \<and> last_success p < last_success p'"
    by (simp add: rounding_registry_def perf_key_of_def score_examples)
  ultimately show ?thesis using best rounding_decides by blast
qed

text \<open>
  Against C6 as stated (only enabled, healthy servers are considered): the server
  \<^verbatim>\<open>jenkins\<close> was discovered with \<^verbatim>\<open>list_jobs\<close>, and is by now disabled and recorded
  unhealthy; it is still selected.
\<close>

theorem find_best_server_stale_counterexample:
  "find_best_server_for_tool ''list_jobs'' stale_registry = Some (''list_jobs'', ''jenkins'')
   \<and> \<not> server_usable (client stale_registry) ''jenkins''"
  by (simp add: find_best_server_for_tool_def stale_registry_def perf_key_of_def
      candidate_of_def sort_desc_def server_usable_def example_server_def)

section \<open>Execution with fallback\<close>

lemma walk_fallback_chain_result:
  assumes "walk_fallback_chain run n response fbs reg attempts = (r, reg', trace)"
    and "\<not> success response"
  shows "\<exists>more. trace = attempts @ more \<and>
           (if success r
            then more \<noteq> [] \<and> r = last more \<and> (\<forall>a\<in>set (butlast more). \<not> success a)
            else r = response \<and> (\<forall>a\<in>set more. \<not> success a))"
  using assms(1)
proof (induction fbs arbitrary: n reg attempts)
  case Nil
  then show ?case using assms(2) by simp
next
  case (Cons fb fbs)
  show ?case
  proof (cases "find_best_server_for_tool fb reg")
    case None
    with Cons.prems have "walk_fallback_chain run n response fbs reg attempts = (r, reg', trace)"
      by simp
    from Cons.IH [OF this] show ?thesis .
  next
    case (Some sel)
    obtain t s where sel: "sel = (t, s)" by (cases sel)
    obtain fr reg1 where ex: "execute_tool_with_tracking t s (run n t s) reg = (fr, reg1)"
      by (cases "execute_tool_with_tracking t s (run n t s) reg")
    show ?thesis
    proof (cases "success fr")
      case True
      with Cons.prems Some sel ex have r: "r = fr" "trace = attempts @ [fr]" by auto
      with True show ?thesis by simp
    next
      case False
      with Cons.prems Some sel ex
      have "walk_fallback_chain run (Suc n) response fbs reg1 (attempts @ [fr]) = (r, reg', trace)"
        by simp
      from Cons.IH [OF this] obtain more where
        m: "trace = (attempts @ [fr]) @ more"
          "if success r
            then more \<noteq> [] \<and> r = last more \<and> (\<forall>a\<in>set (butlast more). \<not> success a)
            else r = response \<and> (\<forall>a\<in>set more. \<not> success a)" by blast
      show ?thesis
      proof (cases "success r")
        case True
        with m False have "trace = attempts @ (fr # more)" "fr # more \<noteq> []" "r = last (fr # more)"
          "\<forall>a\<in>set (butlast (fr # more)). \<not> success a" by auto
        with True show ?thesis by metis
      next
        case F2: False
        with m False have "trace = attempts @ (fr # more)" "r = response"
          "\<forall>a\<in>set (fr # more). \<not> success a" by auto
        with F2 show ?thesis by metis
      qed
    qed
  qed
qed

text \<open>
  Claim C2, as the code has it. When a tool was selected and the call ends in a failure,
  no attempt succeeded and the response returned is the one of the first attempt, the
  selected primary tool's, whatever the fallback attempts after it returned.
\<close>

theorem execute_with_fallback_returns_primary_failure:
  assumes "select_optimal_tool i reg = Some (tool, server)"
    and "execute_with_fallback run i reg = (r, reg', trace)"
    and "\<not> success r"
  shows "trace \<noteq> [] \<and> r = hd trace
         \<and> r = fst (execute_tool_with_tracking tool server (run 0 tool server) reg)
         \<and> (\<forall>a\<in>set trace. \<not> success a)"
proof -
  obtain response reg1 where ex:
    "execute_tool_with_tracking tool server (run 0 tool server) reg = (response, reg1)"
    by (cases "execute_tool_with_tracking tool server (run 0 tool server) reg")
  show ?thesis
  proof (cases "success response")
    case True
    with assms ex show ?thesis by (auto simp: execute_with_fallback_def)
  next
    case False
    show ?thesis
    proof (cases "fallback_chains reg1 tool")
      case None
      with assms ex False show ?thesis by (auto simp: execute_with_fallback_def)
    next
      case (Some chain)
      with assms(1,2) ex False
      have "walk_fallback_chain run 1 response (fallbacks chain) reg1 [response] = (r, reg', trace)"
        by (simp add: execute_with_fallback_def)
      from walk_fallback_chain_result [OF this False] assms(3)
      obtain more where "trace = [response] @ more" "r = response" "\<forall>a\<in>set more. \<not> success a"
        by auto
      with ex False show ?thesis by simp
    qed
  qed
qed

lemma fallback_registry_run:
  "execute_with_fallback failing_run ''list_jobs'' fallback_registry =
     (\<lparr>success = False, data = PNone, error = Some ''connection refused'',
       resp_tool_name = ''list_jobs'', execution_time_ms = 10, resp_server_name = ''jenkins''\<rparr>,
      snd (execute_tool_with_tracking ''search_jobs'' ''jenkins'' (failing_run 1 ''search_jobs'' ''jenkins'')
        (snd (execute_tool_with_tracking ''list_jobs'' ''jenkins'' (failing_run 0 ''list_jobs'' ''jenkins'')
           fallback_registry))),
      [\<lparr>success = False, data = PNone, error = Some ''connection refused'',
        resp_tool_name = ''list_jobs'', execution_time_ms = 10, resp_server_name = ''jenkins''\<rparr>,
       \<lparr>success = False, data = PNone, error = Some ''search index unavailable'',
        resp_tool_name = ''search_jobs'', execution_time_ms = 10, resp_server_name = ''jenkins''\<rparr>])"
  by (simp add: execute_with_fallback_def select_optimal_tool_def fallback_registry_def
      example_mappings_def example_chains_def find_best_server_for_tool_def perf_key_of_def
      candidate_of_def sort_desc_def execute_tool_with_tracking_def track_outcome_def
      failing_run_def new_tool_performance_def Let_def)

text \<open>
  The registry knows \<^verbatim>\<open>list_jobs\<close> and its first fallback \<^verbatim>\<open>search_jobs\<close> on one
  server; \<^verbatim>\<open>list_jobs\<close> fails with "connection refused" and \<^verbatim>\<open>search_jobs\<close> with
  "search index unavailable".
\<close>

theorem execute_with_fallback_returns_primary_failure_witness:
  "select_optimal_tool ''list_jobs'' fallback_registry = Some (''list_jobs'', ''jenkins'')
   \<and> \<not> success (fst (execute_with_fallback failing_run ''list_jobs'' fallback_registry))
   \<and> fst (execute_with_fallback failing_run ''list_jobs'' fallback_registry)
       = hd (snd (snd (execute_with_fallback failing_run ''list_jobs'' fallback_registry)))
   \<and> fst (execute_with_fallback failing_run ''list_jobs'' fallback_registry)
       = fst (execute_tool_with_tracking ''list_jobs'' ''jenkins''
                (failing_run 0 ''list_jobs'' ''jenkins'') fallback_registry)"
proof -
  have sel: "select_optimal_tool ''list_jobs'' fallback_registry = Some (''list_jobs'', ''jenkins'')"
    by (simp add: select_optimal_tool_def fallback_registry_def example_mappings_def
        find_best_server_for_tool_def perf_key_of_def candidate_of_def sort_desc_def)
  obtain r reg' trace where
    run: "execute_with_fallback failing_run ''list_jobs'' fallback_registry = (r, reg', trace)"
    by (cases "execute_with_fallback failing_run ''list_jobs'' fallback_registry")
  have fails: "\<not> success r"
    using run by (auto simp: fallback_registry_run)
  from execute_with_fallback_returns_primary_failure [OF sel run fails]
  have "r = hd trace"
    and "r = fst (execute_tool_with_tracking ''list_jobs'' ''jenkins''
                (failing_run 0 ''list_jobs'' ''jenkins'') fallback_registry)"
    by blast+
  with sel run fails show ?thesis by auto
qed

text \<open>
  Against C2 as stated (the last failure is returned): in that run the attempts made are
  \<^verbatim>\<open>list_jobs\<close> and then \<^verbatim>\<open>search_jobs\<close>, and the response returned carries the error
  of \<^verbatim>\<open>list_jobs\<close>, not the error of the last attempt.
\<close>

theorem execute_with_fallback_last_failure_counterexample:
  "map error (snd (snd (execute_with_fallback failing_run ''list_jobs'' fallback_registry)))
     = [Some ''connection refused'', Some ''search index unavailable'']
   \<and> error (fst (execute_with_fallback failing_run ''list_jobs'' fallback_registry))
       = Some ''connection refused''
   \<and> fst (execute_with_fallback failing_run ''list_jobs'' fallback_registry)
       \<noteq> last (snd (snd (execute_with_fallback failing_run ''list_jobs'' fallback_registry)))"
  by (simp add: fallback_registry_run)

section \<open>Performance tracking\<close>

lemma rounded_examples:
  "nearest_double 0 = 0" "nearest_double 1 = 1" "nearest_double 2 = 2"
  "nearest_double 25 = 25" "nearest_double 50 = 50"
  by code_simp+

text \<open>
  Claim C9 at a concrete input. A fresh entry records a failed execution of 100 ms and
  then a successful one of 50 ms. The failure leaves the average at 0, and the success
  sets it to \<open>(0 * 1 + 50) / 2 = 25\<close>; the mean of the two recorded latencies is 75.
\<close>

theorem track_outcome_average_example:
  "avg_response_time_ms (snd (track_outcome ''list_jobs'' ''jenkins''
       \<lparr>outcome = Returned \<lparr>success = False, data = PNone, error = Some ''timeout'',
                             resp_tool_name = ''list_jobs'', execution_time_ms = 100,
                             resp_server_name = ''jenkins''\<rparr>,
        latency_ms = 100, finished_at = 1\<rparr>
       (new_tool_performance ''list_jobs'' ''jenkins''))) = 0
   \<and> avg_response_time_ms (snd (track_outcome ''list_jobs'' ''jenkins''
       \<lparr>outcome = Returned \<lparr>success = True, data = PNone, error = None,
                             resp_tool_name = ''list_jobs'', execution_time_ms = 50,
                             resp_server_name = ''jenkins''\<rparr>,
        latency_ms = 50, finished_at = 2\<rparr>
       (snd (track_outcome ''list_jobs'' ''jenkins''
          \<lparr>outcome = Returned \<lparr>success = False, data = PNone, error = Some ''timeout'',
                                resp_tool_name = ''list_jobs'', execution_time_ms = 100,
                                resp_server_name = ''jenkins''\<rparr>,
           latency_ms = 100, finished_at = 1\<rparr>
          (new_tool_performance ''list_jobs'' ''jenkins''))))) = 25
   \<and> (100 + 50) / 2 = (75 :: rat)"
  by (simp add: track_outcome_def failed_execution_def new_tool_performance_def Let_def
      float_truediv_def float_add_def float_mul_def float_of_int_def rounded_examples)

text \<open>
  What one recorded execution does to an entry with counts of 0 or more and at most 10
  error samples: exactly one count grows by one, the success count for a successful
  response; only a successful response changes the average, to
  \<open>(avg * (n - 1) + latency) / n\<close> with \<open>n\<close> the new total of both counts, computed
  in doubles; and the error sample stays at 10 entries or fewer.
\<close>

theorem track_outcome_counts_and_sample:
  assumes "0 \<le> perf_success_count p" and "0 \<le> perf_failure_count p"
    and "length (error_patterns p) \<le> 10"
  shows "(case outcome ex of
            Returned response \<Rightarrow>
              fst (track_outcome tool server ex p) = response \<and>
              (if success response
               then perf_success_count (snd (track_outcome tool server ex p)) = perf_success_count p + 1
                  \<and> perf_failure_count (snd (track_outcome tool server ex p)) = perf_failure_count p
                  \<and> avg_response_time_ms (snd (track_outcome tool server ex p))
                      = float_truediv
                          (float_add
                             (float_mul (avg_response_time_ms p)
                                (float_of_int (perf_success_count p + perf_failure_count p)))
                             (latency_ms ex))
                          (float_of_int (perf_success_count p + perf_failure_count p + 1))
               else perf_success_count (snd (track_outcome tool server ex p)) = perf_success_count p
                  \<and> perf_failure_count (snd (track_outcome tool server ex p)) = perf_failure_count p + 1
                  \<and> avg_response_time_ms (snd (track_outcome tool server ex p)) = avg_response_time_ms p)
          | Raised msg \<Rightarrow>
              \<not> success (fst (track_outcome tool server ex p))
              \<and> perf_success_count (snd (track_outcome tool server ex p)) = perf_success_count p
              \<and> perf_failure_count (snd (track_outcome tool server ex p)) = perf_failure_count p + 1
              \<and> avg_response_time_ms (snd (track_outcome tool server ex p)) = avg_response_time_ms p)
       \<and> length (error_patterns (snd (track_outcome tool server ex p))) \<le> 10"
proof (cases "outcome ex")
  case (Raised msg)
  with assms(3) show ?thesis by (simp add: track_outcome_def failed_execution_def Let_def)
next
  case (Returned response)
  show ?thesis
  proof (cases "success response")
    case True
    from assms(1,2) have "perf_success_count p + 1 + perf_failure_count p \<noteq> 0" by arith
    with Returned True assms(3) show ?thesis
      by (simp add: track_outcome_def Let_def add.commute add.left_commute)
  next
    case False
    with Returned assms(3) show ?thesis
      by (simp add: track_outcome_def Let_def split: option.splits)
  qed
qed

theorem track_outcome_counts_and_sample_witness:
  "(0::int) \<le> perf_success_count (new_tool_performance ''list_jobs'' ''jenkins'')
   \<and> length (error_patterns (new_tool_performance ''list_jobs'' ''jenkins'')) \<le> 10
   \<and> perf_failure_count (snd (track_outcome ''list_jobs'' ''jenkins''
        (failing_run 0 ''list_jobs'' ''jenkins'') (new_tool_performance ''list_jobs'' ''jenkins''))) = 1
   \<and> length (error_patterns (snd (track_outcome ''list_jobs'' ''jenkins''
        (failing_run 0 ''list_jobs'' ''jenkins'') (new_tool_performance ''list_jobs'' ''jenkins''))))
       \<le> 10"
proof -
  let ?p = "new_tool_performance ''list_jobs'' ''jenkins''"
  have h: "0 \<le> perf_success_count ?p" "0 \<le> perf_failure_count ?p"
    "length (error_patterns ?p) \<le> 10"
    by (simp_all add: new_tool_performance_def)
  have o: "outcome (failing_run 0 ''list_jobs'' ''jenkins'')
     = Returned \<lparr>success = False, data = PNone, error = Some ''connection refused'',
         resp_tool_name = ''list_jobs'', execution_time_ms = 10, resp_server_name = ''jenkins''\<rparr>"
    by (simp add: failing_run_def)
  from track_outcome_counts_and_sample [OF h, where ex = "failing_run 0 ''list_jobs'' ''jenkins''"
      and tool = "''list_jobs''" and server = "''jenkins''"] h
  show ?thesis unfolding o by (simp add: new_tool_performance_def)
qed

section \<open>Circuit breaker\<close>












section \<open>Cache: consistency and eviction\<close>

lemma remove_item_fields [simp]:
  "max_size (remove_item k c) = max_size c"
  "max_size_bytes (remove_item k c) = max_size_bytes c"
  "default_ttl (remove_item k c) = default_ttl c"
  by (simp_all add: remove_item_def split: option.splits)

lemma sum_sizes_delete:
  "distinct (map fst xs) \<Longrightarrow> map_of xs k = Some item \<Longrightarrow>
   sum_list (map (\<lambda>(k, item). int (size_bytes item)) (AList.delete k xs))
     = sum_list (map (\<lambda>(k, item). int (size_bytes item)) xs) - int (size_bytes item)"
proof (induction xs)
  case Nil
  then show ?case by simp
next
  case (Cons a xs)
  obtain k' i' where a: "a = (k', i')" by (cases a)
  show ?case
  proof (cases "k' = k")
    case True
    with Cons.prems a have "item = i'" by simp
    moreover from Cons.prems a True have "k \<notin> fst ` set xs" by auto
    then have "AList.delete k xs = xs" by (simp add: delete_id)
    ultimately show ?thesis using a True by simp
  next
    case False
    with Cons a show ?thesis by simp
  qed
qed

lemma length_delete:
  "distinct (map fst xs) \<Longrightarrow> map_of xs k = Some item \<Longrightarrow>
   length (AList.delete k xs) = length xs - 1 \<and> length xs > 0"
proof (induction xs)
  case Nil
  then show ?case by simp
next
  case (Cons a xs)
  obtain k' i' where a: "a = (k', i')" by (cases a)
  show ?case
  proof (cases "k' = k")
    case True
    from Cons.prems a True have "k \<notin> fst ` set xs" by auto
    then have "AList.delete k xs = xs" by (simp add: delete_id)
    then show ?thesis using a True by simp
  next
    case False
    with Cons a show ?thesis by auto
  qed
qed

lemma remove_item_wf: "cache_wf c \<Longrightarrow> cache_wf (remove_item k c)"
proof (cases "map_of (cache c) k")
  case None
  assume "cache_wf c"
  then show ?thesis using None by (simp add: remove_item_def)
next
  case (Some item)
  assume wf: "cache_wf c"
  then have d: "distinct (map fst (cache c))" by (simp add: cache_wf_def)
  have "cache_size_bytes (remove_item k c)
      = sum_list (map (\<lambda>(k, item). int (size_bytes item)) (cache (remove_item k c)))"
    using wf Some sum_sizes_delete [OF d Some]
    by (simp add: remove_item_def cache_wf_def)
  moreover have "distinct (map fst (cache (remove_item k c)))"
    using d Some by (simp add: remove_item_def distinct_delete)
  moreover have "distinct (access_order (remove_item k c))"
    using wf Some by (simp add: remove_item_def cache_wf_def distinct_removeAll)
  moreover have "set (access_order (remove_item k c)) = set (map fst (cache (remove_item k c)))"
    using wf Some by (auto simp: remove_item_def cache_wf_def delete_keys)
  ultimately show ?thesis by (simp add: cache_wf_def)
qed

lemma map_of_in_keys: "k \<in> set (map fst xs) \<Longrightarrow> \<exists>item. map_of xs k = Some item"
  by (induction xs) auto

lemma remove_item_head:
  assumes "cache_wf c" and "access_order c = k # rest"
  shows "access_order (remove_item k c) = rest"
    and "length (cache (remove_item k c)) < length (cache c)"
    and "sum_list (map (\<lambda>(k, item). int (size_bytes item)) (cache (remove_item k c)))
           \<le> sum_list (map (\<lambda>(k, item). int (size_bytes item)) (cache c))"
proof -
  from assms(1) have eq: "set (access_order c) = set (map fst (cache c))"
    and d: "distinct (map fst (cache c))" and da: "distinct (access_order c)"
    by (simp_all add: cache_wf_def)
  have "k \<in> set (access_order c)" using assms(2) by simp
  then have "k \<in> set (map fst (cache c))" unfolding eq .
  from map_of_in_keys [OF this] obtain item where item: "map_of (cache c) k = Some item" ..
  from da assms(2) have nr: "k \<notin> set rest" by simp
  have rm: "remove_item k c =
      c\<lparr>cache := AList.delete k (cache c), access_order := removeAll k (access_order c),
        cache_size_bytes := cache_size_bytes c - int (size_bytes item)\<rparr>"
    using item by (simp add: remove_item_def)
  show "access_order (remove_item k c) = rest"
    unfolding rm using assms(2) nr by simp
  from length_delete [OF d item]
  show "length (cache (remove_item k c)) < length (cache c)"
    unfolding rm by simp
  from sum_sizes_delete [OF d item]
  show "sum_list (map (\<lambda>(k, item). int (size_bytes item)) (cache (remove_item k c)))
           \<le> sum_list (map (\<lambda>(k, item). int (size_bytes item)) (cache c))"
    unfolding rm by simp
qed

lemma remove_item_shrinks:
  assumes "cache_wf c"
  shows "length (cache (remove_item k c)) \<le> length (cache c)"
    and "sum_list (map (\<lambda>(k, item). int (size_bytes item)) (cache (remove_item k c)))
           \<le> sum_list (map (\<lambda>(k, item). int (size_bytes item)) (cache c))"
    and "map_of (cache (remove_item k c)) k = None"
    and "k \<notin> set (access_order (remove_item k c))"
proof -
  from assms have d: "distinct (map fst (cache c))" by (simp add: cache_wf_def)
  have "length (cache (remove_item k c)) \<le> length (cache c)
      \<and> sum_list (map (\<lambda>(k, item). int (size_bytes item)) (cache (remove_item k c)))
           \<le> sum_list (map (\<lambda>(k, item). int (size_bytes item)) (cache c))
      \<and> map_of (cache (remove_item k c)) k = None
      \<and> k \<notin> set (access_order (remove_item k c))"
  proof (cases "map_of (cache c) k")
    case None
    then have "k \<notin> set (map fst (cache c))" by (simp add: map_of_eq_None_iff)
    with assms None show ?thesis by (simp add: remove_item_def cache_wf_def)
  next
    case (Some item)
    have rm: "remove_item k c =
        c\<lparr>cache := AList.delete k (cache c), access_order := removeAll k (access_order c),
          cache_size_bytes := cache_size_bytes c - int (size_bytes item)\<rparr>"
      using Some by (simp add: remove_item_def)
    from length_delete [OF d Some] sum_sizes_delete [OF d Some]
    show ?thesis unfolding rm by (simp add: delete_conv)
  qed
  then show "length (cache (remove_item k c)) \<le> length (cache c)"
    and "sum_list (map (\<lambda>(k, item). int (size_bytes item)) (cache (remove_item k c)))
           \<le> sum_list (map (\<lambda>(k, item). int (size_bytes item)) (cache c))"
    and "map_of (cache (remove_item k c)) k = None"
    and "k \<notin> set (access_order (remove_item k c))"
    by blast+
qed

lemma remove_item_within_limits:
  "cache_wf c \<Longrightarrow> within_limits c \<Longrightarrow> within_limits (remove_item k c)"
  using remove_item_shrinks(1,2) [of c k] by (simp add: within_limits_def)

lemma evict_first_0 [simp]: "evict_first 0 c = c"
  by (simp add: evict_first_def)

lemma evict_first_Suc:
  assumes "cache_wf c" and "access_order c = k # rest"
  shows "evict_first (Suc n) c = evict_first n (remove_item k c)"
  using remove_item_head(1) [OF assms] assms(2) by (simp add: evict_first_def)

lemma evict_first_fields [simp]:
  "max_size (evict_first n c) = max_size c"
  "max_size_bytes (evict_first n c) = max_size_bytes c"
proof -
  have "max_size (fold remove_item ks c) = max_size c \<and>
        max_size_bytes (fold remove_item ks c) = max_size_bytes c" for ks
    by (induction ks arbitrary: c) simp_all
  then show "max_size (evict_first n c) = max_size c"
    "max_size_bytes (evict_first n c) = max_size_bytes c"
    by (simp_all add: evict_first_def)
qed

lemma fold_remove_item_wf: "cache_wf c \<Longrightarrow> cache_wf (fold remove_item ks c)"
  by (induction ks arbitrary: c) (simp_all add: remove_item_wf)

lemma fold_remove_item_within_limits:
  "cache_wf c \<Longrightarrow> within_limits c \<Longrightarrow> within_limits (fold remove_item ks c)"
  by (induction ks arbitrary: c) (simp_all add: remove_item_wf remove_item_within_limits)

lemma evict_first_wf: "cache_wf c \<Longrightarrow> cache_wf (evict_first n c)"
  by (simp add: evict_first_def fold_remove_item_wf)

lemma evict_first_within_limits:
  "cache_wf c \<Longrightarrow> within_limits c \<Longrightarrow> within_limits (evict_first n c)"
  by (simp add: evict_first_def fold_remove_item_within_limits)

lemma evict_first_access_order:
  "cache_wf c \<Longrightarrow> access_order (evict_first n c) = drop n (access_order c)"
proof (induction n arbitrary: c)
  case 0
  then show ?case by simp
next
  case (Suc n)
  show ?case
  proof (cases "access_order c")
    case Nil
    then show ?thesis by (simp add: evict_first_def)
  next
    case (Cons k rest)
    from evict_first_Suc [OF Suc.prems Cons] Suc.IH [OF remove_item_wf [OF Suc.prems], of k]
      remove_item_head(1) [OF Suc.prems Cons] Cons
    show ?thesis by simp
  qed
qed

lemma make_room_evicts_lru_prefix:
  assumes "cache_wf c"
  shows "\<exists>n b. n \<le> length (access_order c) \<and> make_room sz c = Some (b, evict_first n c) \<and>
           (\<forall>m<n. needs_room sz (evict_first m c)) \<and> (b \<longleftrightarrow> \<not> needs_room sz (evict_first n c)) \<and>
           (b \<or> access_order (evict_first n c) = [])"
  using assms
proof (induction "length (access_order c)" arbitrary: c)
  case 0
  then have e: "access_order c = []" by simp
  show ?case
  proof (cases "needs_room sz c")
    case True
    then have "make_room sz c = Some (False, c)"
      using e by (subst make_room.simps) (simp add: evict_lru_def)
    with True e show ?thesis by (intro exI [of _ 0] exI [of _ False]) simp
  next
    case False
    then have "make_room sz c = Some (True, c)"
      by (subst make_room.simps) simp
    with False show ?thesis by (intro exI [of _ 0] exI [of _ True]) simp
  qed
next
  case (Suc l)
  then obtain k rest where ao: "access_order c = k # rest" by (cases "access_order c") auto
  show ?case
  proof (cases "needs_room sz c")
    case False
    then have "make_room sz c = Some (True, c)"
      by (subst make_room.simps) simp
    with False show ?thesis by (intro exI [of _ 0] exI [of _ True]) simp
  next
    case True
    let ?c' = "remove_item k c"
    have step: "make_room sz c = make_room sz ?c'"
      using True ao by (subst make_room.simps) (simp add: evict_lru_def)
    have wf': "cache_wf ?c'" using Suc.prems by (rule remove_item_wf)
    have len: "l = length (access_order ?c')"
      using remove_item_head(1) [OF Suc.prems ao] Suc.hyps(2) ao by simp
    from Suc.hyps(1) [OF len wf'] obtain n b where
      n: "n \<le> length (access_order ?c')" "make_room sz ?c' = Some (b, evict_first n ?c')"
         "\<forall>m<n. needs_room sz (evict_first m ?c')" "b \<longleftrightarrow> \<not> needs_room sz (evict_first n ?c')"
         "b \<or> access_order (evict_first n ?c') = []"
      by blast
    have ef: "evict_first (Suc m) c = evict_first m ?c'" for m
      using evict_first_Suc [OF Suc.prems ao] .
    have "\<forall>m<Suc n. needs_room sz (evict_first m c)"
    proof (intro allI impI)
      fix m assume "m < Suc n"
      then show "needs_room sz (evict_first m c)"
        using True n(3) ef by (cases m) auto
    qed
    moreover have "Suc n \<le> length (access_order c)"
      using n(1) len Suc.hyps(2) by simp
    ultimately show ?thesis
      using n(2,4,5) step ef by (intro exI [of _ "Suc n"] exI [of _ b]) simp
  qed
qed

lemma update_absent: "k \<notin> set (map fst xs) \<Longrightarrow> AList.update k v xs = xs @ [(k, v)]"
  by (induction xs) auto

lemma sum_sizes_update_same:
  "map_of xs k = Some item \<Longrightarrow> size_bytes item' = size_bytes item \<Longrightarrow>
   sum_list (map (\<lambda>(k, item). int (size_bytes item)) (AList.update k item' xs))
     = sum_list (map (\<lambda>(k, item). int (size_bytes item)) xs)"
  by (induction xs) (auto split: if_splits)

lemma keys_update_present:
  "map_of xs k = Some item \<Longrightarrow> map fst (AList.update k item' xs) = map fst xs"
proof -
  assume "map_of xs k = Some item"
  then have "k \<in> set (map fst xs)" by (metis map_of_eq_None_iff option.distinct(1) set_map)
  then show ?thesis by (simp add: update_keys)
qed

lemma cache_get_hit_wf:
  assumes "cache_wf c" and "map_of (cache c) k = Some item"
  shows "cache_wf (c\<lparr>cache := AList.update k (touch now item) (cache c),
                     access_order := removeAll k (access_order c) @ [k]\<rparr>)"
proof -
  from assms(1) have eq: "set (access_order c) = set (map fst (cache c))"
    and d: "distinct (map fst (cache c))" and da: "distinct (access_order c)"
    and sz: "cache_size_bytes c = sum_list (map (\<lambda>(k, item). int (size_bytes item)) (cache c))"
    by (simp_all add: cache_wf_def)
  have keys: "map fst (AList.update k (touch now item) (cache c)) = map fst (cache c)"
    using assms(2) by (rule keys_update_present)
  have kin: "k \<in> set (map fst (cache c))"
    using assms(2) by (metis map_of_eq_None_iff option.distinct(1) set_map)
  have sum: "sum_list (map (\<lambda>(k, item). int (size_bytes item)) (AList.update k (touch now item) (cache c)))
     = sum_list (map (\<lambda>(k, item). int (size_bytes item)) (cache c))"
    using assms(2) by (rule sum_sizes_update_same) (simp add: touch_def)
  have "set (removeAll k (access_order c) @ [k]) = set (map fst (cache c))"
    using kin eq by auto
  moreover have "distinct (removeAll k (access_order c) @ [k])"
    using da by (simp add: distinct_removeAll)
  ultimately show ?thesis
    unfolding cache_wf_def using keys sum d sz by simp
qed

lemma cache_get_hit_limits:
  assumes "within_limits c" and "map_of (cache c) k = Some item"
  shows "within_limits (c\<lparr>cache := AList.update k (touch now item) (cache c),
                     access_order := removeAll k (access_order c) @ [k]\<rparr>)"
proof -
  have keys: "map fst (AList.update k (touch now item) (cache c)) = map fst (cache c)"
    using assms(2) by (rule keys_update_present)
  then have "length (AList.update k (touch now item) (cache c)) = length (cache c)"
    by (metis length_map)
  moreover have "sum_list (map (\<lambda>(k, item). int (size_bytes item)) (AList.update k (touch now item) (cache c)))
     = sum_list (map (\<lambda>(k, item). int (size_bytes item)) (cache c))"
    using assms(2) by (rule sum_sizes_update_same) (simp add: touch_def)
  ultimately show ?thesis using assms(1) by (simp add: within_limits_def)
qed

lemma cache_get_never_raises:
  assumes "cache_wf c"
  shows "\<exists>v c'. cache_get now k c = Inr (v, c')"
proof (cases "map_of (cache c) k")
  case None
  then show ?thesis by (simp add: cache_get_def)
next
  case (Some item)
  then have "k \<in> set (map fst (cache c))"
    by (metis map_of_eq_None_iff option.distinct(1) set_map)
  with assms have "k \<in> set (access_order c)" by (simp add: cache_wf_def)
  with Some show ?thesis by (simp add: cache_get_def)
qed

lemma cache_get_preserves:
  assumes "cache_wf c" and "cache_get now k c = Inr (v, c')"
  shows "cache_wf c'" and "max_size c' = max_size c" and "max_size_bytes c' = max_size_bytes c"
    and "within_limits c \<Longrightarrow> within_limits c'"
proof -
  have "cache_wf c' \<and> max_size c' = max_size c \<and> max_size_bytes c' = max_size_bytes c
        \<and> (within_limits c \<longrightarrow> within_limits c')"
  proof (cases "map_of (cache c) k")
    case None
    with assms show ?thesis by (simp add: cache_get_def)
  next
    case (Some item)
    show ?thesis
    proof (cases "is_expired now item")
      case True
      with Some assms(2) have "c' = remove_item k c" by (simp add: cache_get_def)
      with assms(1) show ?thesis
        by (simp add: remove_item_wf remove_item_within_limits)
    next
      case False
      with Some assms(2) have c': "c' = c\<lparr>cache := AList.update k (touch now item) (cache c),
                     access_order := removeAll k (access_order c) @ [k]\<rparr>"
        by (simp add: cache_get_def split: if_splits)
      show ?thesis
        unfolding c' using cache_get_hit_wf [OF assms(1) Some] cache_get_hit_limits [OF _ Some]
        by simp
    qed
  qed
  then show "cache_wf c'" and "max_size c' = max_size c" and "max_size_bytes c' = max_size_bytes c"
    and "within_limits c \<Longrightarrow> within_limits c'" by blast+
qed

lemma cache_set_result:
  assumes "cache_wf c"
  shows "\<exists>b c'. cache_set json_size now k v ttl c = Some (b, c') \<and> cache_wf c' \<and>
           max_size c' = max_size c \<and> max_size_bytes c' = max_size_bytes c \<and>
           (b \<or> within_limits c \<longrightarrow> within_limits c')"
proof -
  let ?sz = "int (json_size v)"
  from make_room_evicts_lru_prefix [OF assms, of ?sz] obtain n b where
    mr: "make_room ?sz c = Some (b, evict_first n c)"
    and b: "b \<longleftrightarrow> \<not> needs_room ?sz (evict_first n c)" by blast
  let ?c1 = "evict_first n c"
  have wf1: "cache_wf ?c1" using assms by (rule evict_first_wf)
  show ?thesis
  proof (cases b)
    case False
    with mr have "cache_set json_size now k v ttl c = Some (False, ?c1)"
      by (simp add: cache_set_def effective_ttl_def Let_def)
    with wf1 evict_first_within_limits [OF assms, of n] show ?thesis by auto
  next
    case True
    let ?c2 = "remove_item k ?c1"
    let ?t = "effective_ttl ttl c"
    let ?item = "\<lparr>item_key = k, item_value = v, created_at = now,
                   expires_at = (if ?t > 0 then Some (now + ?t) else None),
                   access_count = 0, last_accessed = now, size_bytes = json_size v\<rparr>"
    let ?c' = "?c2\<lparr>cache := AList.update k ?item (cache ?c2),
                   access_order := (if k \<in> set (access_order ?c2) then access_order ?c2
                                    else access_order ?c2 @ [k]),
                   cache_size_bytes := cache_size_bytes ?c2 + ?sz\<rparr>"
    have res: "cache_set json_size now k v ttl c = Some (True, ?c')"
      using mr True by (simp add: cache_set_def effective_ttl_def Let_def)
    have wf2: "cache_wf ?c2" using wf1 by (rule remove_item_wf)
    have nk: "k \<notin> set (map fst (cache ?c2))"
      using remove_item_shrinks(3) [OF wf1, of k] by (simp add: map_of_eq_None_iff)
    have na: "k \<notin> set (access_order ?c2)" using remove_item_shrinks(4) [OF wf1, of k] .
    have upd: "AList.update k ?item (cache ?c2) = cache ?c2 @ [(k, ?item)]"
      using nk by (rule update_absent)
    from wf2 have eq2: "set (access_order ?c2) = set (map fst (cache ?c2))"
      and d2: "distinct (map fst (cache ?c2))" and da2: "distinct (access_order ?c2)"
      and sz2: "cache_size_bytes ?c2 = sum_list (map (\<lambda>(k, item). int (size_bytes item)) (cache ?c2))"
      by (simp_all add: cache_wf_def)
    have wf': "cache_wf ?c'"
      unfolding cache_wf_def using nk na eq2 d2 da2 sz2 by (simp add: upd)
    from True b have room: "int (length (cache ?c1)) < max_size c"
      "cache_size_bytes ?c1 + ?sz \<le> max_size_bytes c"
      by (simp_all add: needs_room_def)
    from wf1 have sz1: "cache_size_bytes ?c1 = sum_list (map (\<lambda>(k, item). int (size_bytes item)) (cache ?c1))"
      by (simp add: cache_wf_def)
    have lim: "within_limits ?c'"
      unfolding within_limits_def
      using room sz1 remove_item_shrinks(1,2) [OF wf1, of k] by (simp add: upd)
    have f: "max_size ?c' = max_size c" "max_size_bytes ?c' = max_size_bytes c" by simp_all
    from res wf' lim f show ?thesis by blast
  qed
qed

lemma cache_delete_preserves:
  "cache_wf c \<Longrightarrow> cache_wf (snd (cache_delete k c))"
  "cache_wf c \<Longrightarrow> within_limits c \<Longrightarrow> within_limits (snd (cache_delete k c))"
  "max_size (snd (cache_delete k c)) = max_size c"
  "max_size_bytes (snd (cache_delete k c)) = max_size_bytes c"
  by (simp_all add: cache_delete_def remove_item_wf remove_item_within_limits)

lemma cleanup_expired_preserves:
  "cache_wf c \<Longrightarrow> cache_wf (cleanup_expired now c)"
  "cache_wf c \<Longrightarrow> within_limits c \<Longrightarrow> within_limits (cleanup_expired now c)"
  "max_size (cleanup_expired now c) = max_size c"
  "max_size_bytes (cleanup_expired now c) = max_size_bytes c"
proof -
  have "max_size (fold remove_item ks c) = max_size c \<and>
        max_size_bytes (fold remove_item ks c) = max_size_bytes c" for ks
    by (induction ks arbitrary: c) simp_all
  then show "max_size (cleanup_expired now c) = max_size c"
    "max_size_bytes (cleanup_expired now c) = max_size_bytes c"
    by (simp_all add: cleanup_expired_def)
qed (simp_all add: cleanup_expired_def fold_remove_item_wf fold_remove_item_within_limits)

lemma cache_reachable_invariant:
  assumes "cache_reachable ms ttl c"
  shows "cache_wf c \<and> max_size c = ms \<and> max_size_bytes c = 100 * 1024 * 1024
         \<and> (0 \<le> ms \<longrightarrow> within_limits c)"
  using assms
proof (induction rule: cache_reachable.induct)
  case reach_new
  then show ?case by (simp add: new_cache_def cache_wf_def within_limits_def)
next
  case (reach_get c now k v c')
  with cache_get_preserves [of c now k v c'] show ?case by simp
next
  case (reach_set c json_size now k v t b c')
  with cache_set_result [where c = c and json_size = json_size and now = now and k = k
      and v = v and ttl = t]
  show ?case by auto
next
  case (reach_delete c k)
  with cache_delete_preserves [where c = c and k = k] show ?case by simp
next
  case (reach_clear c)
  then show ?case by (simp add: cache_clear_def cache_wf_def within_limits_def)
next
  case (reach_cleanup c now)
  with cleanup_expired_preserves [where c = c and now = now] show ?case by simp
qed

lemma remove_item_access_order:
  "cache_wf c \<Longrightarrow> access_order (remove_item k c) = removeAll k (access_order c)"
proof (cases "map_of (cache c) k")
  case None
  assume wf: "cache_wf c"
  from None have "k \<notin> set (map fst (cache c))" by (simp add: map_of_eq_None_iff)
  with wf have "k \<notin> set (access_order c)" by (simp add: cache_wf_def)
  with None show ?thesis by (simp add: remove_item_def)
next
  case (Some item)
  then show ?thesis by (simp add: remove_item_def)
qed

lemma cache_set_after_make_room:
  assumes "cache_wf c" and "make_room (int (json_size v)) c = Some (b, evict_first n c)"
  shows "\<exists>c'. cache_set json_size now k v t c = Some (b, c') \<and>
           (\<not> b \<longrightarrow> c' = evict_first n c) \<and>
           (b \<longrightarrow> access_order c' = removeAll k (drop n (access_order c)) @ [k])"
proof (cases b)
  case False
  with assms(2) show ?thesis by (simp add: cache_set_def Let_def)
next
  case True
  let ?c1 = "evict_first n c"
  have wf1: "cache_wf ?c1" using assms(1) by (rule evict_first_wf)
  have ao: "access_order (remove_item k ?c1) = removeAll k (drop n (access_order c))"
    using remove_item_access_order [OF wf1, of k] evict_first_access_order [OF assms(1), of n]
    by simp
  then have nk: "k \<notin> set (access_order (remove_item k ?c1))" by simp
  from True assms(2) nk ao show ?thesis
    by (simp add: cache_set_def Let_def)
qed

section \<open>Cache: what a set stores\<close>

lemma cache_set_stores_item:
  assumes "cache_set json_size now k v ttl c = Some (True, c1)"
  shows "k \<in> set (access_order c1) \<and>
         map_of (cache c1) k =
           Some \<lparr>item_key = k, item_value = v, created_at = now,
                 expires_at = (if effective_ttl ttl c > 0 then Some (now + effective_ttl ttl c) else None),
                 access_count = 0, last_accessed = now, size_bytes = json_size v\<rparr>"
proof (cases "make_room (int (json_size v)) c")
  case None
  with assms show ?thesis by (simp add: cache_set_def effective_ttl_def Let_def)
next
  case (Some r)
  obtain b c0 where r: "r = (b, c0)" by (cases r)
  show ?thesis
  proof (cases b)
    case False
    with Some r assms show ?thesis by (simp add: cache_set_def effective_ttl_def Let_def)
  next
    case True
    let ?c2 = "remove_item k c0"
    let ?item = "\<lparr>item_key = k, item_value = v, created_at = now,
                 expires_at = (if effective_ttl ttl c > 0 then Some (now + effective_ttl ttl c) else None),
                 access_count = 0, last_accessed = now, size_bytes = json_size v\<rparr>"
    let ?c' = "?c2\<lparr>cache := AList.update k ?item (cache ?c2),
                 access_order := (if k \<in> set (access_order ?c2) then access_order ?c2
                                  else access_order ?c2 @ [k]),
                 cache_size_bytes := cache_size_bytes ?c2 + int (json_size v)\<rparr>"
    have "cache_set json_size now k v ttl c = Some (True, ?c')"
      using Some r True by (simp add: cache_set_def effective_ttl_def Let_def)
    with assms have "Some (True, c1) = Some (True, ?c')" by (rule trans [OF sym])
    then have c1: "c1 = ?c'" by (simp only: option.inject prod.inject simp_thms)
    show ?thesis unfolding c1 by (simp add: update_conv')
  qed
qed

lemma cache_get_after_set:
  assumes "cache_set json_size t0 k v ttl c = Some (True, c1)"
  shows "(effective_ttl ttl c \<le> 0 \<or> t1 \<le> t0 + effective_ttl ttl c \<longrightarrow>
            (\<exists>c2. cache_get t1 k c1 = Inr (v, c2)))
       \<and> (effective_ttl ttl c > 0 \<and> t1 > t0 + effective_ttl ttl c \<longrightarrow>
            cache_get t1 k c1 = Inr (PNone, remove_item k c1))"
  using cache_set_stores_item [OF assms]
  by (simp add: cache_get_def is_expired_def)

lemma length_two_keys:
  assumes "distinct (map fst xs)" and "set (map fst xs) = {a, b}" and "a \<noteq> b"
  shows "length xs = 2"
proof -
  have "length (map fst xs) = card (set (map fst xs))"
    using distinct_card [OF assms(1)] by simp
  also have "\<dots> = 2" using assms(2,3) by simp
  finally show ?thesis by simp
qed

lemma third_key_evicts_lru:
  assumes wf: "cache_wf c" and ms: "max_size c = 2" and ao: "access_order c = [a, b]"
    and k: "k \<noteq> a" "k \<noteq> b"
    and ia: "map_of (cache c) a = Some ia" and ib: "map_of (cache c) b = Some ib"
    and fits: "cache_size_bytes c - int (size_bytes ia) + int (json_size v) \<le> max_size_bytes c"
  shows "\<exists>c1. cache_set json_size now k v ttl c = Some (True, c1) \<and>
           map_of (cache c1) a = None \<and> map_of (cache c1) b = Some ib \<and>
           access_order c1 = [b, k]"
proof -
  let ?sz = "int (json_size v)"
  from wf have eq: "set (access_order c) = set (map fst (cache c))"
    and d: "distinct (map fst (cache c))" and da: "distinct (access_order c)"
    by (simp_all add: cache_wf_def)
  from da ao have ab: "a \<noteq> b" by simp
  have keys: "set (map fst (cache c)) = {a, b}" using eq ao by simp
  have len: "length (cache c) = 2" using length_two_keys [OF d keys ab] .
  let ?c1 = "remove_item a c"
  have rm: "?c1 = c\<lparr>cache := AList.delete a (cache c), access_order := removeAll a (access_order c),
          cache_size_bytes := cache_size_bytes c - int (size_bytes ia)\<rparr>"
    using ia by (simp add: remove_item_def)
  have need: "needs_room ?sz c" using len ms by (simp add: needs_room_def)
  have len1: "length (cache ?c1) = 1"
    using length_delete [OF d ia] len unfolding rm by simp
  have noneed: "\<not> needs_room ?sz ?c1"
    using len1 ms fits unfolding needs_room_def by (simp add: rm)
  have "make_room ?sz ?c1 = Some (True, ?c1)"
    using noneed by (subst make_room.simps) simp
  then have mr: "make_room ?sz c = Some (True, ?c1)"
    using need ao by (subst make_room.simps) (simp add: evict_lru_def)
  have nk: "map_of (cache ?c1) k = None"
  proof -
    have "k \<notin> set (map fst (cache c))" using keys k by simp
    then have "map_of (cache c) k = None" by (simp add: map_of_eq_None_iff)
    then show ?thesis unfolding rm by (simp add: delete_conv)
  qed
  then have rk: "remove_item k ?c1 = ?c1" by (simp add: remove_item_def)
  let ?item = "\<lparr>item_key = k, item_value = v, created_at = now,
                 expires_at = (if effective_ttl ttl c > 0 then Some (now + effective_ttl ttl c) else None),
                 access_count = 0, last_accessed = now, size_bytes = json_size v\<rparr>"
  let ?c' = "?c1\<lparr>cache := AList.update k ?item (cache ?c1),
                 access_order := (if k \<in> set (access_order ?c1) then access_order ?c1
                                  else access_order ?c1 @ [k]),
                 cache_size_bytes := cache_size_bytes ?c1 + ?sz\<rparr>"
  have res: "cache_set json_size now k v ttl c = Some (True, ?c')"
    using mr rk by (simp add: cache_set_def effective_ttl_def Let_def)
  have a1: "access_order ?c1 = [b]" unfolding rm using ao ab by simp
  have "map_of (cache ?c') a = None"
    using k(1) unfolding rm by (simp add: update_conv' delete_conv)
  moreover have "map_of (cache ?c') b = Some ib"
    using k(2) ab ib unfolding rm by (simp add: update_conv' delete_conv)
  moreover have "access_order ?c' = [b, k]"
    using a1 k(2) by simp
  ultimately show ?thesis using res by blast
qed

section \<open>Cache: the access order follows the time stamps\<close>

lemma last_access_remove_item:
  "k' \<noteq> k \<Longrightarrow> last_access (remove_item k c) k' = last_access c k'"
  by (simp add: last_access_def remove_item_def delete_conv split: option.splits)

lemma recency_ordered_mono: "recency_ordered t c \<Longrightarrow> t \<le> t' \<Longrightarrow> recency_ordered t' c"
  by (auto simp: recency_ordered_def)

lemma recency_remove_item:
  assumes "cache_wf c" and "recency_ordered t c"
  shows "recency_ordered t (remove_item k c)"
proof -
  let ?xs = "removeAll k (access_order c)"
  have ao: "access_order (remove_item k c) = ?xs"
    using assms(1) by (rule remove_item_access_order)
  have eq: "map (last_access (remove_item k c)) ?xs = map (last_access c) ?xs"
    by (rule map_cong) (simp_all add: last_access_remove_item)
  have "sorted (map (last_access c) (filter ((\<noteq>) k) (access_order c)))"
    using assms(2) by (simp add: recency_ordered_def sorted_filter)
  then have "sorted (map (last_access c) ?xs)" by (simp add: removeAll_filter_not_eq)
  moreover have "\<forall>k'\<in>set ?xs. last_access (remove_item k c) k' \<le> t"
    using assms(2) by (auto simp: recency_ordered_def last_access_remove_item)
  ultimately show ?thesis unfolding recency_ordered_def ao eq by simp
qed

lemma recency_fold_remove_item:
  "cache_wf c \<Longrightarrow> recency_ordered t c \<Longrightarrow> recency_ordered t (fold remove_item ks c)"
proof (induction ks arbitrary: c)
  case Nil
  then show ?case by simp
next
  case (Cons k ks)
  from Cons.IH [OF remove_item_wf [OF Cons.prems(1)] recency_remove_item [OF Cons.prems]]
  show ?case by simp
qed

lemma recency_get:
  assumes "cache_wf c" and "recency_ordered t c" and "t \<le> now"
    and "cache_get now k c = Inr (v, c')"
  shows "recency_ordered now c'"
proof (cases "map_of (cache c) k")
  case None
  with assms(4) have "c' = c" by (simp add: cache_get_def)
  with assms(2,3) show ?thesis by (simp add: recency_ordered_mono)
next
  case (Some item)
  show ?thesis
  proof (cases "is_expired now item")
    case True
    with Some assms(4) have "c' = remove_item k c" by (simp add: cache_get_def)
    with recency_remove_item [OF assms(1,2), of k] assms(3) show ?thesis
      by (simp add: recency_ordered_mono)
  next
    case False
    let ?xs = "removeAll k (access_order c)"
    from Some False assms(4) have c': "c' = c\<lparr>cache := AList.update k (touch now item) (cache c),
                      access_order := ?xs @ [k]\<rparr>"
      by (simp add: cache_get_def split: if_splits)
    have la: "last_access c' k' = (if k' = k then now else last_access c k')" for k'
      unfolding c' by (simp add: last_access_def update_conv' touch_def)
    have eq: "map (last_access c') ?xs = map (last_access c) ?xs"
      by (rule map_cong) (simp_all add: la)
    have "sorted (map (last_access c) (filter ((\<noteq>) k) (access_order c)))"
      using assms(2) by (simp add: recency_ordered_def sorted_filter)
    then have s: "sorted (map (last_access c) ?xs)" by (simp add: removeAll_filter_not_eq)
    have b: "\<forall>k'\<in>set ?xs. last_access c k' \<le> now"
      using assms(2,3) by (auto simp: recency_ordered_def)
    have ao: "access_order c' = ?xs @ [k]" unfolding c' by simp
    have "sorted (map (last_access c') (access_order c'))"
      unfolding ao using s b by (simp add: eq la sorted_append)
    moreover have "\<forall>k'\<in>set (access_order c'). last_access c' k' \<le> now"
      unfolding ao using b by (auto simp: la)
    ultimately show ?thesis by (simp add: recency_ordered_def)
  qed
qed

lemma cache_set_unfold:
  assumes "cache_wf c"
  shows "\<exists>n b. make_room (int (json_size v)) c = Some (b, evict_first n c) \<and>
           cache_set json_size now k v ttl c =
             Some (b, if b then
                        (remove_item k (evict_first n c))
                          \<lparr>cache := cache (remove_item k (evict_first n c)) @
                              [(k, \<lparr>item_key = k, item_value = v, created_at = now,
                                    expires_at = (if effective_ttl ttl c > 0
                                                  then Some (now + effective_ttl ttl c) else None),
                                    access_count = 0, last_accessed = now,
                                    size_bytes = json_size v\<rparr>)],
                           access_order := access_order (remove_item k (evict_first n c)) @ [k],
                           cache_size_bytes := cache_size_bytes (remove_item k (evict_first n c))
                                                 + int (json_size v)\<rparr>
                      else evict_first n c)"
proof -
  from make_room_evicts_lru_prefix [OF assms, of "int (json_size v)"] obtain n b where
    mr: "make_room (int (json_size v)) c = Some (b, evict_first n c)" by blast
  let ?c1 = "evict_first n c"
  have wf1: "cache_wf ?c1" using assms by (rule evict_first_wf)
  have nk: "k \<notin> set (map fst (cache (remove_item k ?c1)))"
    using remove_item_shrinks(3) [OF wf1, of k] by (simp add: map_of_eq_None_iff)
  have na: "k \<notin> set (access_order (remove_item k ?c1))"
    using remove_item_shrinks(4) [OF wf1, of k] .
  have "cache_set json_size now k v ttl c = Some (b, if b then
                        (remove_item k (evict_first n c))
                          \<lparr>cache := cache (remove_item k (evict_first n c)) @
                              [(k, \<lparr>item_key = k, item_value = v, created_at = now,
                                    expires_at = (if effective_ttl ttl c > 0
                                                  then Some (now + effective_ttl ttl c) else None),
                                    access_count = 0, last_accessed = now,
                                    size_bytes = json_size v\<rparr>)],
                           access_order := access_order (remove_item k (evict_first n c)) @ [k],
                           cache_size_bytes := cache_size_bytes (remove_item k (evict_first n c))
                                                 + int (json_size v)\<rparr>
                      else evict_first n c)"
  proof (cases b)
    case True
    with mr na show ?thesis
      by (simp add: cache_set_def Let_def update_absent [OF nk])
  next
    case False
    with mr show ?thesis by (simp add: cache_set_def Let_def)
  qed
  with mr show ?thesis by blast
qed

lemma recency_set:
  assumes wf: "cache_wf c" and ro: "recency_ordered t c" and le: "t \<le> now"
    and set: "cache_set json_size now k v ttl c = Some (b, c')"
  shows "recency_ordered now c'"
proof -
  from cache_set_unfold [OF wf, of json_size v now k ttl] set obtain n where
    c': "c' = (if b then
                        (remove_item k (evict_first n c))
                          \<lparr>cache := cache (remove_item k (evict_first n c)) @
                              [(k, \<lparr>item_key = k, item_value = v, created_at = now,
                                    expires_at = (if effective_ttl ttl c > 0
                                                  then Some (now + effective_ttl ttl c) else None),
                                    access_count = 0, last_accessed = now,
                                    size_bytes = json_size v\<rparr>)],
                           access_order := access_order (remove_item k (evict_first n c)) @ [k],
                           cache_size_bytes := cache_size_bytes (remove_item k (evict_first n c))
                                                 + int (json_size v)\<rparr>
                      else evict_first n c)"
    by auto
  let ?c1 = "evict_first n c"
  let ?c2 = "remove_item k ?c1"
  have wf1: "cache_wf ?c1" using wf by (rule evict_first_wf)
  have ro1: "recency_ordered t ?c1"
    unfolding evict_first_def using wf ro by (rule recency_fold_remove_item)
  have ro2: "recency_ordered t ?c2" using wf1 ro1 by (rule recency_remove_item)
  show ?thesis
  proof (cases b)
    case False
    with c' ro1 le show ?thesis by (simp add: recency_ordered_mono)
  next
    case True
    have nk: "map_of (cache ?c2) k = None" using remove_item_shrinks(3) [OF wf1, of k] .
    have na: "k \<notin> set (access_order ?c2)" using remove_item_shrinks(4) [OF wf1, of k] .
    have la: "last_access c' k' = (if k' = k then now else last_access ?c2 k')" for k'
      using True nk unfolding c' by (simp add: last_access_def map_add_def split: option.splits)
    have ao: "access_order c' = access_order ?c2 @ [k]" using True unfolding c' by simp
    have eq: "map (last_access c') (access_order ?c2) = map (last_access ?c2) (access_order ?c2)"
      by (rule map_cong) (use na in \<open>auto simp: la\<close>)
    have b: "\<forall>k'\<in>set (access_order ?c2). last_access ?c2 k' \<le> now"
      using ro2 le by (auto simp: recency_ordered_def)
    have "sorted (map (last_access c') (access_order c'))"
      unfolding ao using ro2 b by (simp add: eq la sorted_append recency_ordered_def)
    moreover have "\<forall>k'\<in>set (access_order c'). last_access c' k' \<le> now"
      unfolding ao using b by (auto simp: la)
    ultimately show ?thesis by (simp add: recency_ordered_def)
  qed
qed

lemma cache_reachable_until_invariant:
  assumes "cache_reachable_until ms ttl t c"
  shows "cache_reachable ms ttl c \<and> recency_ordered t c"
  using assms
proof (induction rule: cache_reachable_until.induct)
  case (until_new t)
  show ?case using reach_new [of ms ttl] by (simp add: recency_ordered_def new_cache_def)
next
  case (until_get t c now k v c')
  then have r: "cache_reachable ms ttl c" and ro: "recency_ordered t c" by simp_all
  from cache_reachable_invariant [OF r] have wf: "cache_wf c" by simp
  from reach_get [OF r until_get(3)] recency_get [OF wf ro until_get(2,3)] show ?case by simp
next
  case (until_set t c now json_size k v tt b c')
  then have r: "cache_reachable ms ttl c" and ro: "recency_ordered t c" by simp_all
  from cache_reachable_invariant [OF r] have wf: "cache_wf c" by simp
  from reach_set [OF r until_set(3)] recency_set [OF wf ro until_set(2,3)] show ?case by simp
next
  case (until_delete t c k)
  then have r: "cache_reachable ms ttl c" and ro: "recency_ordered t c" by simp_all
  from cache_reachable_invariant [OF r] have wf: "cache_wf c" by simp
  from reach_delete [OF r, of k] recency_remove_item [OF wf ro, of k] ro show ?case
    by (simp add: cache_delete_def)
next
  case (until_clear t c)
  then have r: "cache_reachable ms ttl c" by simp
  from reach_clear [OF r] show ?case by (simp add: recency_ordered_def cache_clear_def)
next
  case (until_cleanup t c now)
  then have r: "cache_reachable ms ttl c" and ro: "recency_ordered t c" by simp_all
  from cache_reachable_invariant [OF r] have wf: "cache_wf c" by simp
  have "recency_ordered now (cleanup_expired now c)"
    unfolding cleanup_expired_def
    using recency_fold_remove_item [OF wf ro] until_cleanup(2) by (rule recency_ordered_mono)
  with reach_cleanup [OF r, of now] show ?case by simp
qed

lemma two_keys_order:
  assumes wf: "cache_wf c" and len: "length (cache c) \<le> 2"
    and a: "map_of (cache c) a = Some ia" and b: "map_of (cache c) b = Some ib"
    and ro: "recency_ordered t c" and lt: "last_accessed ia < last_accessed ib"
  shows "access_order c = [a, b]"
proof -
  from a b lt have ab: "a \<noteq> b" by auto
  from wf have eq: "set (access_order c) = set (map fst (cache c))"
    and d: "distinct (map fst (cache c))" and da: "distinct (access_order c)"
    by (simp_all add: cache_wf_def)
  have sub: "{a, b} \<subseteq> set (map fst (cache c))"
    using map_of_SomeD [OF a] map_of_SomeD [OF b] by force
  have "card (set (map fst (cache c))) = length (cache c)"
    using distinct_card [OF d] by simp
  with len have "card (set (map fst (cache c))) \<le> card {a, b}" using ab by simp
  with sub have keys: "set (map fst (cache c)) = {a, b}"
    by (metis List.finite_set card_seteq)
  have "length (access_order c) = 2"
    using distinct_card [OF da] eq keys ab by simp
  then obtain x y where xy: "access_order c = [x, y]"
    by (cases "access_order c"; cases "tl (access_order c)"; cases "tl (tl (access_order c))") auto
  from xy eq keys da have "(x = a \<and> y = b) \<or> (x = b \<and> y = a)" by (auto simp: doubleton_eq_iff)
  moreover have "last_access c a = last_accessed ia" "last_access c b = last_accessed ib"
    using a b by (simp_all add: last_access_def)
  moreover from ro xy have "last_access c x \<le> last_access c y" by (simp add: recency_ordered_def)
  ultimately show ?thesis using lt xy by auto
qed

lemma cache_get_hit_records_access:
  assumes "map_of (cache c) k = Some item" and "\<not> is_expired t1 item"
    and "cache_get t1 k c = Inr (r, c')"
  shows "r = item_value item \<and> last_access c' k = t1 \<and>
         (\<forall>k'. k' \<noteq> k \<longrightarrow> last_access c' k' = last_access c k') \<and>
         access_order c' = removeAll k (access_order c) @ [k]"
proof -
  from assms have c': "c' = c\<lparr>cache := AList.update k (touch t1 item) (cache c),
                      access_order := removeAll k (access_order c) @ [k]\<rparr>"
    and r: "r = item_value item"
    by (simp_all add: cache_get_def split: if_splits)
  show ?thesis unfolding c' r by (simp add: last_access_def update_conv' touch_def)
qed

section \<open>Cache: eviction and limits\<close>

text \<open>
  Claim C3, as the code has it. In every state of a cache made with a maximal size of 0
  or more, the items held are no more than the maximal size and their bytes no more than
  the byte budget. The loop of \<^verbatim>\<open>set\<close> returns; it has evicted the first \<open>n\<close> keys of
  the access order, the least recently used first and whether expired or not, where
  \<open>n\<close> is the first number of evictions after which the new item fits, and the number
  of all keys when it never fits: the loop gives up only with nothing left to evict.
  \<^verbatim>\<open>set\<close> returns what the loop found: \<^verbatim>\<open>False\<close> with the cache as the loop left it,
  or \<^verbatim>\<open>True\<close> with the key put last in what is left of the access order; the cache
  is again within the limits.
\<close>

theorem cache_evicts_lru_within_limits:
  assumes "cache_reachable ms ttl c" and "0 \<le> ms"
  shows "within_limits c
       \<and> (\<exists>n b. n \<le> length (access_order c) \<and> make_room sz c = Some (b, evict_first n c) \<and>
             access_order (evict_first n c) = drop n (access_order c) \<and>
             (\<forall>m<n. needs_room sz (evict_first m c)) \<and>
             (b \<longleftrightarrow> \<not> needs_room sz (evict_first n c)) \<and>
             (b \<or> n = length (access_order c)))
       \<and> (\<exists>n b c'. make_room (int (json_size v)) c = Some (b, evict_first n c) \<and>
             cache_set json_size now k v t c = Some (b, c') \<and>
             (\<not> b \<longrightarrow> c' = evict_first n c) \<and>
             (b \<longrightarrow> access_order c' = removeAll k (drop n (access_order c)) @ [k]) \<and>
             within_limits c')"
proof -
  from cache_reachable_invariant [OF assms(1)] assms(2)
  have wf: "cache_wf c" and lim: "within_limits c" by simp_all
  have room: "\<exists>n b. n \<le> length (access_order c) \<and> make_room s c = Some (b, evict_first n c) \<and>
             access_order (evict_first n c) = drop n (access_order c) \<and>
             (\<forall>m<n. needs_room s (evict_first m c)) \<and>
             (b \<longleftrightarrow> \<not> needs_room s (evict_first n c)) \<and>
             (b \<or> n = length (access_order c))" for s
  proof -
    from make_room_evicts_lru_prefix [OF wf, of s] obtain n b where
      n: "n \<le> length (access_order c)" "make_room s c = Some (b, evict_first n c)"
        "\<forall>m<n. needs_room s (evict_first m c)" "b \<longleftrightarrow> \<not> needs_room s (evict_first n c)"
        "b \<or> access_order (evict_first n c) = []"
      by blast
    have ao: "access_order (evict_first n c) = drop n (access_order c)"
      using wf by (rule evict_first_access_order)
    with n(1,5) have "b \<or> n = length (access_order c)" by auto
    with n ao show ?thesis by blast
  qed
  from room [of "int (json_size v)"] obtain n b where
    mr: "make_room (int (json_size v)) c = Some (b, evict_first n c)" by blast
  from cache_set_after_make_room [where json_size = json_size and v = v and c = c and b = b
      and n = n and now = now and k = k and t = t, OF wf mr] obtain c' where
    c': "cache_set json_size now k v t c = Some (b, c')" "\<not> b \<longrightarrow> c' = evict_first n c"
      "b \<longrightarrow> access_order c' = removeAll k (drop n (access_order c)) @ [k]" by blast
  from cache_set_result [OF wf, of json_size now k v t] lim c'(1)
  have "within_limits c'" by auto
  with mr c' have "\<exists>n b c'. make_room (int (json_size v)) c = Some (b, evict_first n c) \<and>
             cache_set json_size now k v t c = Some (b, c') \<and>
             (\<not> b \<longrightarrow> c' = evict_first n c) \<and>
             (b \<longrightarrow> access_order c' = removeAll k (drop n (access_order c)) @ [k]) \<and>
             within_limits c'" by blast
  with lim room [of sz] show ?thesis by blast
qed

text \<open>
  A cache of two items, made by two calls of \<^verbatim>\<open>set\<close>: to make room for a third item of
  10 bytes the loop evicts one key, the least recently used \<^verbatim>\<open>a\<close>, and \<^verbatim>\<open>set\<close> puts
  the new key after \<^verbatim>\<open>b\<close>; for an item of 200 MB it evicts both keys and gives up.
\<close>

lemma first_set:
  "cache_set small_size 0 ''a'' (PStr ''A'') (Some 5) (new_cache 2 300) =
     Some (True, \<lparr>max_size = 2, default_ttl = 300,
      cache = [(''a'', \<lparr>item_key = ''a'', item_value = PStr ''A'', created_at = 0,
                        expires_at = Some 5, access_count = 0, last_accessed = 0,
                        size_bytes = 10\<rparr>)],
      access_order = [''a''], cache_size_bytes = 10, max_size_bytes = 104857600\<rparr>)"
  by (simp add: cache_set_def effective_ttl_def make_room.simps needs_room_def new_cache_def
      remove_item_def small_size_def Let_def)

lemma second_set:
  "cache_set small_size 1 ''b'' (PStr ''B'') (Some 100)
     \<lparr>max_size = 2, default_ttl = 300,
      cache = [(''a'', \<lparr>item_key = ''a'', item_value = PStr ''A'', created_at = 0,
                        expires_at = Some 5, access_count = 0, last_accessed = 0,
                        size_bytes = 10\<rparr>)],
      access_order = [''a''], cache_size_bytes = 10, max_size_bytes = 104857600\<rparr>
   = Some (True, two_item_cache)"
  by (simp add: cache_set_def effective_ttl_def make_room.simps needs_room_def two_item_cache_def
      remove_item_def small_size_def Let_def)

lemma two_item_cache_reachable: "cache_reachable 2 300 two_item_cache"
  using reach_set [OF reach_set [OF reach_new first_set] second_set] .

theorem cache_evicts_lru_within_limits_witness:
  "cache_reachable 2 300 two_item_cache \<and> within_limits two_item_cache
   \<and> access_order two_item_cache = [''a'', ''b'']
   \<and> make_room 10 two_item_cache = Some (True, evict_first 1 two_item_cache)
   \<and> map fst (cache (evict_first 1 two_item_cache)) = [''b'']
   \<and> (\<exists>c'. cache_set small_size 10 ''c'' (PStr ''C'') None two_item_cache = Some (True, c') \<and>
          access_order c' = [''b'', ''c''] \<and> within_limits c')
   \<and> make_room 200000000 two_item_cache = Some (False, evict_first 2 two_item_cache)
   \<and> access_order (evict_first 2 two_item_cache) = []"
proof -
  have z: "(0::int) \<le> 2" by simp
  note fits = cache_evicts_lru_within_limits [OF two_item_cache_reachable z,
      where sz = 10 and json_size = small_size and now = 10 and k = "''c''" and v = "PStr ''C''"
        and t = None]
  have ao: "access_order two_item_cache = [''a'', ''b'']" by (simp add: two_item_cache_def)
  have m1: "make_room 10 two_item_cache = Some (True, evict_first 1 two_item_cache)"
    and m1s: "make_room (int (small_size (PStr ''C''))) two_item_cache
                = Some (True, evict_first 1 two_item_cache)"
    and k1: "map fst (cache (evict_first 1 two_item_cache)) = [''b'']"
    and m2: "make_room 200000000 two_item_cache = Some (False, evict_first 2 two_item_cache)"
    by (simp_all add: make_room.simps needs_room_def two_item_cache_def evict_lru_def
        remove_item_def evict_first_def small_size_def)
  from fits obtain n b c' where
    s: "make_room (int (small_size (PStr ''C''))) two_item_cache = Some (b, evict_first n two_item_cache)"
       "cache_set small_size 10 ''c'' (PStr ''C'') None two_item_cache = Some (b, c')"
       "b \<longrightarrow> access_order c' = removeAll ''c'' (drop n (access_order two_item_cache)) @ [''c'']"
       "within_limits c'" by blast
  from s(1) m1s have b: "b" by simp
  from s(1) m1s have "access_order (evict_first n two_item_cache)
      = access_order (evict_first 1 two_item_cache)" by simp
  moreover have d: "access_order (evict_first m two_item_cache) = drop m (access_order two_item_cache)" for m
    using evict_first_access_order [of two_item_cache m] two_item_cache_reachable
      cache_reachable_invariant [of 2 300 two_item_cache] by simp
  ultimately have "drop n (access_order two_item_cache) = [''b'']" using d [of n] d [of 1] ao by simp
  with s(3) b have "access_order c' = [''b'', ''c'']" by simp
  with s(2,4) b have set3: "\<exists>c'. cache_set small_size 10 ''c'' (PStr ''C'') None two_item_cache = Some (True, c') \<and>
          access_order c' = [''b'', ''c''] \<and> within_limits c'" by auto
  have e2: "access_order (evict_first 2 two_item_cache) = []" using d [of 2] ao by simp
  from fits have "within_limits two_item_cache" by blast
  with two_item_cache_reachable ao m1 k1 set3 m2 e2 show ?thesis by blast
qed

text \<open>
  Against C3 as stated (the least recently used unexpired item is evicted; an expired one
  only when all are expired, and then the earliest expiring). At time 10 the cache holds
  \<^verbatim>\<open>a\<close>, expired and least recently used, and \<^verbatim>\<open>b\<close>, not expired: setting \<^verbatim>\<open>c\<close>
  evicts \<^verbatim>\<open>a\<close> and keeps \<^verbatim>\<open>b\<close>. With both expired, \<^verbatim>\<open>a\<close> at 9 and \<^verbatim>\<open>b\<close> at 5, it
  is again \<^verbatim>\<open>a\<close> that is evicted, not the earlier expiring \<^verbatim>\<open>b\<close>.
\<close>

theorem cache_evicts_expired_lru_counterexample:
  "access_order two_item_cache = [''a'', ''b'']
   \<and> map (\<lambda>(k, item). (k, is_expired 10 item)) (cache two_item_cache)
       = [(''a'', True), (''b'', False)]
   \<and> map fst (cache (cache_after_set small_size 10 ''c'' (PStr ''C'') (Some 100) two_item_cache))
       = [''b'', ''c'']
   \<and> access_order (two_item_cache\<lparr>cache :=
          [(''a'', \<lparr>item_key = ''a'', item_value = PStr ''A'', created_at = 0,
                    expires_at = Some 9, access_count = 0, last_accessed = 0, size_bytes = 10\<rparr>),
           (''b'', \<lparr>item_key = ''b'', item_value = PStr ''B'', created_at = 1,
                    expires_at = Some 5, access_count = 0, last_accessed = 1, size_bytes = 10\<rparr>)]\<rparr>)
       = [''a'', ''b'']
   \<and> map fst (cache (cache_after_set small_size 10 ''c'' (PStr ''C'') (Some 100)
        (two_item_cache\<lparr>cache :=
          [(''a'', \<lparr>item_key = ''a'', item_value = PStr ''A'', created_at = 0,
                    expires_at = Some 9, access_count = 0, last_accessed = 0, size_bytes = 10\<rparr>),
           (''b'', \<lparr>item_key = ''b'', item_value = PStr ''B'', created_at = 1,
                    expires_at = Some 5, access_count = 0, last_accessed = 1, size_bytes = 10\<rparr>)]\<rparr>)))
       = [''b'', ''c'']"
  by (simp add: cache_after_set_def cache_set_def effective_ttl_def make_room.simps needs_room_def
      two_item_cache_def evict_lru_def remove_item_def small_size_def is_expired_def Let_def)

section \<open>Cache: time to live and the third key\<close>

text \<open>
  Claim C8, as the code has it. After a \<^verbatim>\<open>set(k, v, ttl=1)\<close> at time \<open>t0\<close> that
  returned \<^verbatim>\<open>True\<close>, the last access of \<open>k\<close> is \<open>t0\<close>, a \<^verbatim>\<open>get(k)\<close> at a time up to
  \<open>t0 + 1\<close> returns \<open>v\<close>, and a later one returns \<^verbatim>\<open>None\<close> and removes the item. A
  \<^verbatim>\<open>get\<close> that finds an item not yet expired returns its value and makes the time of
  the call the last access of its key, leaving the last access of every other key as it
  was. In a cache of maximal size 2, used with clock readings that do not decrease, that
  holds \<open>a\<close> and \<open>b\<close>, \<open>a\<close> last accessed before \<open>b\<close>: setting a third key whose value
  fits the byte budget once \<open>a\<close> is gone returns \<^verbatim>\<open>True\<close>, evicts \<open>a\<close> and leaves \<open>b\<close>,
  which a \<^verbatim>\<open>get\<close> returns as long as it has not expired.
\<close>

theorem cache_ttl_and_lru_eviction:
  "(cache_set json_size t0 k v (Some 1) c = Some (True, c1) \<longrightarrow>
      last_access c1 k = t0 \<and>
      (t1 \<le> t0 + 1 \<longrightarrow> (\<exists>c2. cache_get t1 k c1 = Inr (v, c2))) \<and>
      (t1 > t0 + 1 \<longrightarrow> cache_get t1 k c1 = Inr (PNone, remove_item k c1)))
   \<and> (map_of (cache c) k = Some item \<and> \<not> is_expired t1 item \<and> cache_get t1 k c = Inr (r, c5) \<longrightarrow>
        r = item_value item \<and> last_access c5 k = t1 \<and>
        (\<forall>k'. k' \<noteq> k \<longrightarrow> last_access c5 k' = last_access c k'))
   \<and> (cache_reachable_until 2 dttl t c \<and>
       map_of (cache c) a = Some ia \<and> map_of (cache c) b = Some ib \<and>
       last_accessed ia < last_accessed ib \<and> k \<noteq> a \<and> k \<noteq> b \<and>
       cache_size_bytes c - int (size_bytes ia) + int (json_size v) \<le> max_size_bytes c \<longrightarrow>
      (\<exists>c3. cache_set json_size t0 k v ttl c = Some (True, c3) \<and>
         map_of (cache c3) a = None \<and> map_of (cache c3) b = Some ib \<and>
         (\<not> is_expired t1 ib \<longrightarrow> (\<exists>c4. cache_get t1 b c3 = Inr (item_value ib, c4)))))"
proof -
  have p1: "last_access c1 k = t0 \<and>
      (t1 \<le> t0 + 1 \<longrightarrow> (\<exists>c2. cache_get t1 k c1 = Inr (v, c2))) \<and>
      (t1 > t0 + 1 \<longrightarrow> cache_get t1 k c1 = Inr (PNone, remove_item k c1))"
    if "cache_set json_size t0 k v (Some 1) c = Some (True, c1)"
    using cache_get_after_set [OF that, of t1] cache_set_stores_item [OF that]
    by (simp add: effective_ttl_def last_access_def)
  have p2: "r = item_value item \<and> last_access c5 k = t1 \<and>
        (\<forall>k'. k' \<noteq> k \<longrightarrow> last_access c5 k' = last_access c k')"
    if "map_of (cache c) k = Some item" "\<not> is_expired t1 item" "cache_get t1 k c = Inr (r, c5)"
    using cache_get_hit_records_access [OF that] by blast
  have p3: "\<exists>c3. cache_set json_size t0 k v ttl c = Some (True, c3) \<and>
         map_of (cache c3) a = None \<and> map_of (cache c3) b = Some ib \<and>
         (\<not> is_expired t1 ib \<longrightarrow> (\<exists>c4. cache_get t1 b c3 = Inr (item_value ib, c4)))"
    if h: "cache_reachable_until 2 dttl t c"
       "map_of (cache c) a = Some ia" "map_of (cache c) b = Some ib"
       "last_accessed ia < last_accessed ib" "k \<noteq> a" "k \<noteq> b"
       "cache_size_bytes c - int (size_bytes ia) + int (json_size v) \<le> max_size_bytes c"
  proof -
    from cache_reachable_until_invariant [OF h(1)]
    have r: "cache_reachable 2 dttl c" and ro: "recency_ordered t c" by simp_all
    from cache_reachable_invariant [OF r]
    have wf: "cache_wf c" and ms: "max_size c = 2" and lim: "within_limits c" by simp_all
    from lim ms have len: "length (cache c) \<le> 2" by (simp add: within_limits_def)
    have ao: "access_order c = [a, b]" using two_keys_order [OF wf len h(2,3) ro h(4)] .
    from third_key_evicts_lru [where json_size = json_size and now = t0 and ttl = ttl,
        OF wf ms ao h(5,6) h(2,3) h(7)]
    obtain c3 where
      c3: "cache_set json_size t0 k v ttl c = Some (True, c3)" "map_of (cache c3) a = None"
        "map_of (cache c3) b = Some ib" "access_order c3 = [b, k]" by blast
    have "\<exists>c4. cache_get t1 b c3 = Inr (item_value ib, c4)" if "\<not> is_expired t1 ib"
      using that c3(3,4) by (simp add: cache_get_def)
    with c3 show ?thesis by blast
  qed
  from p1 p2 p3 show ?thesis by blast
qed

text \<open>
  A cache of maximal size 2: \<^verbatim>\<open>a\<close> is set at time 0, \<^verbatim>\<open>b\<close> at time 1, and \<^verbatim>\<open>a\<close> is
  read at time 2, which makes \<^verbatim>\<open>b\<close> the least recently accessed. Setting \<^verbatim>\<open>c\<close> at time
  3 with a time to live of 1 evicts \<^verbatim>\<open>b\<close>, the key set last, and keeps \<^verbatim>\<open>a\<close>; \<^verbatim>\<open>c\<close>
  is returned at 3.5 and missed at 4.1.
\<close>

lemma touched_cache_run:
  "cache_set small_size 0 ''a'' (PStr ''A'') (Some 100) (new_cache 2 300)
     = Some (True, cache_after_set small_size 0 ''a'' (PStr ''A'') (Some 100) (new_cache 2 300))"
  "cache_set small_size 1 ''b'' (PStr ''B'') (Some 100)
       (cache_after_set small_size 0 ''a'' (PStr ''A'') (Some 100) (new_cache 2 300))
     = Some (True, cache_after_set small_size 1 ''b'' (PStr ''B'') (Some 100)
          (cache_after_set small_size 0 ''a'' (PStr ''A'') (Some 100) (new_cache 2 300)))"
  "cache_get 2 ''a'' (cache_after_set small_size 1 ''b'' (PStr ''B'') (Some 100)
          (cache_after_set small_size 0 ''a'' (PStr ''A'') (Some 100) (new_cache 2 300)))
     = Inr (PStr ''A'', touched_cache)"
  "touched_cache =
     \<lparr>max_size = 2, default_ttl = 300,
      cache = [(''a'', \<lparr>item_key = ''a'', item_value = PStr ''A'', created_at = 0,
                        expires_at = Some 100, access_count = 1, last_accessed = 2,
                        size_bytes = 10\<rparr>),
               (''b'', \<lparr>item_key = ''b'', item_value = PStr ''B'', created_at = 1,
                        expires_at = Some 101, access_count = 0, last_accessed = 1,
                        size_bytes = 10\<rparr>)],
      access_order = [''b'', ''a''], cache_size_bytes = 20, max_size_bytes = 104857600\<rparr>"
  by (simp_all add: touched_cache_def cache_after_get_def cache_after_set_def cache_set_def
      cache_get_def effective_ttl_def make_room.simps needs_room_def new_cache_def
      remove_item_def small_size_def is_expired_def touch_def Let_def)

lemma touched_cache_reachable: "cache_reachable_until 2 300 2 touched_cache"
proof -
  have le: "(0::rat) \<le> 0" "(0::rat) \<le> 1" "(1::rat) \<le> 2" by simp_all
  from until_get [OF until_set [OF until_set [OF until_new le(1) touched_cache_run(1)]
      le(2) touched_cache_run(2)] le(3) touched_cache_run(3)]
  show ?thesis .
qed

lemma third_set_touched:
  "cache_set small_size 3 ''c'' (PStr ''C'') (Some 1) touched_cache =
     Some (True, cache_after_set small_size 3 ''c'' (PStr ''C'') (Some 1) touched_cache)"
  by (simp add: touched_cache_run(4) cache_after_set_def cache_set_def effective_ttl_def
      make_room.simps needs_room_def evict_lru_def remove_item_def small_size_def Let_def)

theorem cache_ttl_and_lru_eviction_witness:
  "cache_reachable_until 2 300 2 touched_cache
   \<and> touched_cache =
       cache_after_get 2 ''a''
         (cache_after_set small_size 1 ''b'' (PStr ''B'') (Some 100)
            (cache_after_set small_size 0 ''a'' (PStr ''A'') (Some 100) (new_cache 2 300)))
   \<and> last_access touched_cache ''a'' = 2 \<and> last_access touched_cache ''b'' = 1
   \<and> cache_set small_size 3 ''c'' (PStr ''C'') (Some 1) touched_cache =
       Some (True, cache_after_set small_size 3 ''c'' (PStr ''C'') (Some 1) touched_cache)
   \<and> map_of (cache (cache_after_set small_size 3 ''c'' (PStr ''C'') (Some 1) touched_cache)) ''b''
       = None
   \<and> (\<exists>c4. cache_get (7 / 2) ''a''
          (cache_after_set small_size 3 ''c'' (PStr ''C'') (Some 1) touched_cache)
        = Inr (PStr ''A'', c4))
   \<and> (\<exists>c2. cache_get (7 / 2) ''c''
          (cache_after_set small_size 3 ''c'' (PStr ''C'') (Some 1) touched_cache)
        = Inr (PStr ''C'', c2))
   \<and> cache_get (41 / 10) ''c''
          (cache_after_set small_size 3 ''c'' (PStr ''C'') (Some 1) touched_cache)
       = Inr (PNone, remove_item ''c''
          (cache_after_set small_size 3 ''c'' (PStr ''C'') (Some 1) touched_cache))"
proof -
  let ?ia = "\<lparr>item_key = ''a'', item_value = PStr ''A'', created_at = 0,
                expires_at = Some 100, access_count = 1, last_accessed = 2, size_bytes = 10\<rparr>"
  let ?fresh = "\<lparr>item_key = ''a'', item_value = PStr ''A'', created_at = 0,
                expires_at = Some 100, access_count = 0, last_accessed = 0, size_bytes = 10\<rparr>"
  let ?ib = "\<lparr>item_key = ''b'', item_value = PStr ''B'', created_at = 1,
                expires_at = Some 101, access_count = 0, last_accessed = 1, size_bytes = 10\<rparr>"
  let ?ab = "cache_after_set small_size 1 ''b'' (PStr ''B'') (Some 100)
          (cache_after_set small_size 0 ''a'' (PStr ''A'') (Some 100) (new_cache 2 300))"
  let ?c3 = "cache_after_set small_size 3 ''c'' (PStr ''C'') (Some 1) touched_cache"
  note hit = cache_ttl_and_lru_eviction [where c = ?ab and k = "''a''" and item = ?fresh
      and ?t1.0 = 2 and r = "PStr ''A''" and ?c5.0 = touched_cache]
  note early = cache_ttl_and_lru_eviction [where json_size = small_size and ?t0.0 = 3
      and k = "''c''" and v = "PStr ''C''" and c = touched_cache and ?c1.0 = ?c3
      and ?t1.0 = "7 / 2" and a = "''b''" and b = "''a''" and ia = ?ib and ib = ?ia
      and ttl = "Some 1" and dttl = 300 and t = 2]
  note late = cache_ttl_and_lru_eviction [where json_size = small_size and ?t0.0 = 3
      and k = "''c''" and v = "PStr ''C''" and c = touched_cache and ?c1.0 = ?c3
      and ?t1.0 = "41 / 10"]
  have stored: "map_of (cache ?ab) ''a'' = Some ?fresh" "\<not> is_expired 2 ?fresh"
    by (simp_all add: cache_after_set_def cache_set_def effective_ttl_def make_room.simps
        needs_room_def new_cache_def remove_item_def small_size_def is_expired_def Let_def)
  from hit stored touched_cache_run(3) have la: "last_access touched_cache ''a'' = 2" by blast
  have lb: "last_access touched_cache ''b'' = 1"
    by (simp add: touched_cache_run(4) last_access_def)
  have hyps: "map_of (cache touched_cache) ''b'' = Some ?ib"
    "map_of (cache touched_cache) ''a'' = Some ?ia"
    "last_accessed ?ib < last_accessed ?ia" "''c'' \<noteq> ''b''" "''c'' \<noteq> ''a''"
    "cache_size_bytes touched_cache - int (size_bytes ?ib) + int (small_size (PStr ''C''))
       \<le> max_size_bytes touched_cache"
    "\<not> is_expired (7 / 2) ?ia" "item_value ?ia = PStr ''A''"
    by (simp_all add: touched_cache_run(4) small_size_def is_expired_def)
  have t: "(7 / 2 :: rat) \<le> 3 + 1" "(41 / 10 :: rat) > 3 + 1" by simp_all
  from early hyps touched_cache_reachable
  obtain c3 where c3: "cache_set small_size 3 ''c'' (PStr ''C'') (Some 1) touched_cache = Some (True, c3)"
    "map_of (cache c3) ''b'' = None" "\<exists>c4. cache_get (7 / 2) ''a'' c3 = Inr (PStr ''A'', c4)"
    by metis
  from c3(1) third_set_touched have e: "c3 = ?c3" by simp
  from early third_set_touched t(1) have g1: "\<exists>c2. cache_get (7 / 2) ''c'' ?c3 = Inr (PStr ''C'', c2)"
    by blast
  from late third_set_touched t(2)
  have g2: "cache_get (41 / 10) ''c'' ?c3 = Inr (PNone, remove_item ''c'' ?c3)" by blast
  from touched_cache_reachable la lb third_set_touched c3(2,3) g1 g2 show ?thesis
    unfolding e touched_cache_def [symmetric] by blast
qed

text \<open>
  Against C8 as stated. A value whose serialisation is larger than the byte budget of
  100 MB is not stored: \<^verbatim>\<open>set\<close> returns \<^verbatim>\<open>False\<close> and the \<^verbatim>\<open>get\<close> right after it
  misses. And with a maximal size of 2, two cached values of 50 MB and a third of 60 MB,
  setting the third evicts both of the first two: the more recently used \<^verbatim>\<open>b\<close> is
  missed as well.
\<close>

theorem cache_byte_budget_counterexample:
  "cache_set large_size 0 ''k'' (PStr ''huge'') (Some 1) (new_cache 1000 300)
     = Some (False, new_cache 1000 300)
   \<and> cache_get 0 ''k'' (new_cache 1000 300) = Inr (PNone, new_cache 1000 300)
   \<and> max_size (new_cache 2 300) = 2
   \<and> access_order (cache_after_set large_size 1 ''b'' (PStr ''B'') (Some 100)
        (cache_after_set large_size 0 ''a'' (PStr ''A'') (Some 100) (new_cache 2 300)))
       = [''a'', ''b'']
   \<and> map fst (cache (cache_after_set large_size 2 ''c'' (PStr ''big'') (Some 100)
        (cache_after_set large_size 1 ''b'' (PStr ''B'') (Some 100)
          (cache_after_set large_size 0 ''a'' (PStr ''A'') (Some 100) (new_cache 2 300)))))
       = [''c'']
   \<and> cache_get 2 ''b'' (cache_after_set large_size 2 ''c'' (PStr ''big'') (Some 100)
        (cache_after_set large_size 1 ''b'' (PStr ''B'') (Some 100)
          (cache_after_set large_size 0 ''a'' (PStr ''A'') (Some 100) (new_cache 2 300))))
       = Inr (PNone, cache_after_set large_size 2 ''c'' (PStr ''big'') (Some 100)
        (cache_after_set large_size 1 ''b'' (PStr ''B'') (Some 100)
          (cache_after_set large_size 0 ''a'' (PStr ''A'') (Some 100) (new_cache 2 300))))"
  by (simp add: cache_after_set_def cache_set_def effective_ttl_def make_room.simps needs_room_def new_cache_def
      evict_lru_def remove_item_def large_size_def cache_get_def Let_def)

section \<open>Connection pool\<close>

lemma acquire_invariant:
  assumes "pool_invariant n p" and "acquire factory p = Inr (connection, p')"
  shows "pool_invariant n p'"
proof -
  from assms(1) have fin: "finite (used_connections p)" and mx: "max_connections p = n"
    and le: "int (length (pool p)) + int (card (used_connections p)) \<le> n"
    by (simp_all add: pool_invariant_def)
  have ins: "card (insert c (used_connections p)) \<le> card (used_connections p) + 1" for c
    using fin by (simp add: card_insert_if)
  show ?thesis
  proof (cases "pool p = []")
    case False
    with assms(2) have p': "p' = p\<lparr>pool := butlast (pool p),
        used_connections := insert (last (pool p)) (used_connections p)\<rparr>"
      by (auto simp: acquire_def Let_def split: if_splits)
    from False have "length (butlast (pool p)) + 1 = length (pool p)" by simp
    with le ins [of "last (pool p)"] fin mx show ?thesis
      unfolding p' pool_invariant_def by simp
  next
    case True
    with assms(2) obtain c where c: "factory = Some (Created c)"
      and lt: "int (card (used_connections p)) < max_connections p"
      and p': "p' = p\<lparr>used_connections := insert c (used_connections p)\<rparr>"
      by (auto simp: acquire_def split: if_splits option.splits factory_outcome.splits)
    from True lt mx ins [of c] fin show ?thesis
      unfolding p' pool_invariant_def by simp
  qed
qed

lemma release_invariant:
  assumes "pool_invariant n p"
  shows "pool_invariant n (fst (release connection p))"
proof (cases "connection \<in> used_connections p")
  case False
  with assms show ?thesis by (simp add: release_def)
next
  case True
  from assms have fin: "finite (used_connections p)" and mx: "max_connections p = n"
    and le: "int (length (pool p)) + int (card (used_connections p)) \<le> n"
    by (simp_all add: pool_invariant_def)
  from True fin have "card (used_connections p - {connection}) + 1 = card (used_connections p)"
    by (simp add: card_Diff_singleton) (metis One_nat_def Suc_pred card_gt_0_iff empty_iff)
  with le fin mx True show ?thesis
    by (simp add: release_def Let_def pool_invariant_def)
qed

lemma pool_reachable_invariant:
  assumes "pool_reachable url n p" and "0 \<le> n"
  shows "pool_invariant n p"
  using assms(1)
proof (induction rule: pool_reachable.induct)
  case pool_new
  then show ?case using assms(2) by (simp add: pool_invariant_def new_connection_pool_def)
next
  case (pool_acquire p factory connection p')
  from acquire_invariant [OF pool_acquire.IH pool_acquire.hyps(2)] show ?case .
next
  case (pool_release p connection)
  from release_invariant [OF pool_release.IH] show ?case .
next
  case (pool_close p)
  then show ?case using assms(2) by (simp add: pool_invariant_def close_pool_def)
qed

text \<open>
  Claim C5. In every state of a pool made with a maximal number of connections of 0 or
  more, the connections in use are no more than that number, and neither are the idle
  and the used ones together. An \<^verbatim>\<open>acquire\<close> that finds no idle connection and the
  maximal number in use returns an error at once, whatever the factory would do: on an
  open pool the error "Connection pool exhausted".
\<close>

theorem connection_pool_bounded:
  assumes "pool_reachable url n p" and "0 \<le> n"
  shows "int (card (used_connections p)) \<le> n
       \<and> int (length (pool p)) + int (card (used_connections p)) \<le> n
       \<and> max_connections p = n
       \<and> (pool p = [] \<and> int (card (used_connections p)) = n \<longrightarrow>
            (\<exists>e. acquire factory p = Inl e) \<and>
            (\<not> pool_closed p \<longrightarrow> acquire factory p = Inl (RuntimeError ''Connection pool exhausted'')))"
proof -
  from pool_reachable_invariant [OF assms]
  have le: "int (length (pool p)) + int (card (used_connections p)) \<le> n"
    and mx: "max_connections p = n"
    by (simp_all add: pool_invariant_def)
  have "(\<exists>e. acquire factory p = Inl e) \<and>
        (\<not> pool_closed p \<longrightarrow> acquire factory p = Inl (RuntimeError ''Connection pool exhausted''))"
    if "pool p = []" "int (card (used_connections p)) = n"
    using that mx by (simp add: acquire_def)
  with le mx show ?thesis by auto
qed

text \<open>With a maximum of 2, two connections are acquired; the third \<^verbatim>\<open>acquire\<close> fails.\<close>

lemma busy_pool_reachable: "pool_reachable ''http://jenkins:8010/mcp'' 2 busy_pool"
proof -
  let ?p0 = "new_connection_pool ''http://jenkins:8010/mcp'' 2 :: nat connection_pool"
  let ?p1 = "?p0\<lparr>used_connections := {1}\<rparr>"
  have a1: "acquire (Some (Created 1)) ?p0 = Inr (1, ?p1)"
    by (simp add: acquire_def new_connection_pool_def)
  have a2: "acquire (Some (Created 2)) ?p1 = Inr (2, busy_pool)"
    by (simp add: acquire_def new_connection_pool_def busy_pool_def insert_commute)
  from pool_acquire [OF pool_acquire [OF pool_new a1] a2] show ?thesis .
qed

theorem connection_pool_bounded_witness:
  "pool_reachable ''http://jenkins:8010/mcp'' 2 busy_pool
   \<and> int (card (used_connections busy_pool)) \<le> 2
   \<and> pool busy_pool = [] \<and> int (card (used_connections busy_pool)) = 2
   \<and> acquire (Some (Created 3)) busy_pool = Inl (RuntimeError ''Connection pool exhausted'')"
proof -
  have z: "(0::int) \<le> 2" by simp
  note inst = connection_pool_bounded [OF busy_pool_reachable z, of "Some (Created 3)"]
  have h: "pool busy_pool = []" "int (card (used_connections busy_pool)) = 2" "\<not> pool_closed busy_pool"
    by (simp_all add: busy_pool_def)
  from inst h busy_pool_reachable show ?thesis by simp
qed

section \<open>Cache: the value None\<close>

lemma cache_get_miss: "map_of (cache c) k = None \<Longrightarrow> cache_get t k c = Inr (PNone, c)"
  by (simp add: cache_get_def)

text \<open>
  The cache by itself: a \<^verbatim>\<open>get\<close> of a key the cache does not hold returns \<^verbatim>\<open>None\<close>, and
  so does a \<^verbatim>\<open>get\<close> of a key stored with the value \<^verbatim>\<open>None\<close>, at any time; a value
  stored by a \<^verbatim>\<open>set\<close> that returned \<^verbatim>\<open>True\<close> is returned by a \<^verbatim>\<open>get\<close> before it
  expires, so only a value other than \<^verbatim>\<open>None\<close> is told from a miss.
\<close>

theorem cache_get_none_is_ambiguous:
  "(map_of (cache c) k = None \<longrightarrow> cache_get t k c = Inr (PNone, c))
   \<and> (cache_set json_size t0 k PNone ttl c = Some (True, c1) \<longrightarrow>
        (\<exists>c2. cache_get t k c1 = Inr (PNone, c2)))
   \<and> (cache_set json_size t0 k v ttl c = Some (True, c1) \<and>
        (effective_ttl ttl c \<le> 0 \<or> t \<le> t0 + effective_ttl ttl c) \<longrightarrow>
        (\<exists>c2. cache_get t k c1 = Inr (v, c2)))"
proof -
  have p2: "\<exists>c2. cache_get t k c1 = Inr (PNone, c2)"
    if "cache_set json_size t0 k PNone ttl c = Some (True, c1)"
    using cache_set_stores_item [OF that] by (simp add: cache_get_def)
  have p3: "\<exists>c2. cache_get t k c1 = Inr (v, c2)"
    if "cache_set json_size t0 k v ttl c = Some (True, c1)"
      and "effective_ttl ttl c \<le> 0 \<or> t \<le> t0 + effective_ttl ttl c"
    using cache_get_after_set [OF that(1), of t] that(2) by blast
  from cache_get_miss [of c k t] p2 p3 show ?thesis by blast
qed

lemma set_none_example:
  "cache_set small_size 0 ''op:jobs'' PNone None (new_cache 10 300)
     = Some (True, cache_after_set small_size 0 ''op:jobs'' PNone None (new_cache 10 300))"
  by (simp add: cache_after_set_def cache_set_def effective_ttl_def make_room.simps needs_room_def new_cache_def
      remove_item_def small_size_def Let_def)

lemma set_value_example:
  "cache_set small_size 0 ''op:jobs'' (PStr ''[]'') None (new_cache 10 300)
     = Some (True, cache_after_set small_size 0 ''op:jobs'' (PStr ''[]'') None (new_cache 10 300))"
  by (simp add: cache_after_set_def cache_set_def effective_ttl_def make_room.simps needs_room_def new_cache_def
      remove_item_def small_size_def Let_def)

theorem cache_get_none_is_ambiguous_witness:
  "cache_get 1 ''op:jobs'' (new_cache 10 300) = Inr (PNone, new_cache 10 300)
   \<and> cache_set small_size 0 ''op:jobs'' PNone None (new_cache 10 300)
       = Some (True, cache_after_set small_size 0 ''op:jobs'' PNone None (new_cache 10 300))
   \<and> (\<exists>c2. cache_get 1 ''op:jobs''
          (cache_after_set small_size 0 ''op:jobs'' PNone None (new_cache 10 300)) = Inr (PNone, c2))
   \<and> (\<exists>c2. cache_get 1 ''op:jobs''
          (cache_after_set small_size 0 ''op:jobs'' (PStr ''[]'') None (new_cache 10 300))
        = Inr (PStr ''[]'', c2))"
proof -
  let ?c = "new_cache 10 300"
  let ?cn = "cache_after_set small_size 0 ''op:jobs'' PNone None ?c"
  let ?cv = "cache_after_set small_size 0 ''op:jobs'' (PStr ''[]'') None ?c"
  note none = cache_get_none_is_ambiguous [where c = ?c and k = "''op:jobs''" and t = 1
      and json_size = small_size and ?t0.0 = 0 and ttl = None and ?c1.0 = ?cn and v = PNone]
  note val = cache_get_none_is_ambiguous [where c = ?c and k = "''op:jobs''" and t = 1
      and json_size = small_size and ?t0.0 = 0 and ttl = None and ?c1.0 = ?cv and v = "PStr ''[]''"]
  have absent: "map_of (cache ?c) ''op:jobs'' = None" by (simp add: new_cache_def)
  have fresh: "effective_ttl None ?c \<le> 0 \<or> (1::rat) \<le> 0 + effective_ttl None ?c"
    by (simp add: effective_ttl_def new_cache_def)
  from none absent have g1: "cache_get 1 ''op:jobs'' ?c = Inr (PNone, ?c)" by blast
  from none set_none_example have g2: "\<exists>c2. cache_get 1 ''op:jobs'' ?cn = Inr (PNone, c2)" by blast
  from val set_value_example fresh
  have g3: "\<exists>c2. cache_get 1 ''op:jobs'' ?cv = Inr (PStr ''[]'', c2)" by blast
  from g1 g2 g3 set_none_example show ?thesis by blast
qed

section \<open>Cached operations\<close>

lemma cached_operation_without_entry:
  assumes "cache (pm_cache pm) = []" and "pm_metrics pm = Map.empty"
  shows "cached_operation json_size t_get t_start t_end t_set t_record k op_name operation ttl
           cache_key_prefix pm
         = Some (Inl (case op_name of None \<Rightarrow> AttributeError | Some name \<Rightarrow> TypeError), False, pm)"
  using assms
  by (cases op_name)
    (simp_all add: cached_operation_def cache_get_def record_named_def record_cache_miss_def
      metrics_getitem_def Let_def)

text \<open>
  Claim C10 at a concrete input. A manager as \<^verbatim>\<open>PerformanceManager()\<close> makes it is asked
  for the cached result of an operation named \<^verbatim>\<open>fetch_jobs\<close> that would return \<^verbatim>\<open>None\<close>.
  The cache misses, and the recording of the miss raises \<^verbatim>\<open>TypeError\<close>: the metrics
  hold no entry for the name and the default factory cannot make one. The operation is
  not executed and nothing is cached or recorded; the manager is as before, so the next
  call does the same.
\<close>

theorem cached_operation_raises_before_operation:
  "cached_operation json_size t_get t_start t_end t_set t_record ''jobs'' (Some ''fetch_jobs'')
       (Inr PNone) ttl ''op'' new_performance_manager
     = Some (Inl TypeError, False, new_performance_manager)
   \<and> cache (pm_cache new_performance_manager) = []
   \<and> pm_metrics new_performance_manager ''fetch_jobs'' = None"
  by (simp add: cached_operation_def cache_get_def record_named_def record_cache_miss_def
      metrics_getitem_def new_performance_manager_def new_cache_def Let_def)

text \<open>
  No call of \<^verbatim>\<open>cached_operation\<close> on a manager made by \<^verbatim>\<open>PerformanceManager()\<close> and used
  through \<^verbatim>\<open>cached_operation\<close> executes its operation or stores anything: the cache and
  the metrics stay empty, and every call raises \<^verbatim>\<open>TypeError\<close> (\<^verbatim>\<open>AttributeError\<close> for
  an operation without a name) with the manager unchanged.
\<close>

theorem cached_operation_never_executes:
  assumes "manager_reachable pm"
  shows "pm = new_performance_manager
       \<and> cached_operation json_size t_get t_start t_end t_set t_record k op_name operation ttl
           cache_key_prefix pm
         = Some (Inl (case op_name of None \<Rightarrow> AttributeError | Some name \<Rightarrow> TypeError), False, pm)"
proof -
  have e: "cache (pm_cache new_performance_manager) = []"
    "pm_metrics new_performance_manager = Map.empty"
    by (simp_all add: new_performance_manager_def new_cache_def)
  from assms have "pm = new_performance_manager"
  proof (induction rule: manager_reachable.induct)
    case manager_new
    show ?case ..
  next
    case (manager_call pm json_size t_get t_start t_end t_set t_record k op_name operation ttl
        cache_key_prefix r executed pm')
    with cached_operation_without_entry [OF e, of json_size t_get t_start t_end t_set t_record k
        op_name operation ttl cache_key_prefix]
    show ?case by simp
  qed
  with cached_operation_without_entry [OF e] show ?thesis by simp
qed

theorem cached_operation_never_executes_witness:
  "manager_reachable new_performance_manager
   \<and> cached_operation small_size 0 0 1 1 1 ''jobs'' (Some ''fetch_jobs'') (Inr (PStr ''[]'')) None
       ''op'' new_performance_manager
     = Some (Inl TypeError, False, new_performance_manager)"
  using cached_operation_never_executes [OF manager_new, where json_size = small_size
      and t_get = 0 and t_start = 0 and t_end = 1 and t_set = 1 and t_record = 1
      and k = "''jobs''" and op_name = "Some ''fetch_jobs''" and operation = "Inr (PStr ''[]'')"
      and ttl = None and cache_key_prefix = "''op''"] manager_new
  by simp

section \<open>Parameter validation\<close>

text \<open>
  Claim C4 at a concrete input. The schema declares \<^verbatim>\<open>force\<close> a boolean and the caller
  passes the integer 1: the validation reports no error, and the value handed to the
  transport for \<^verbatim>\<open>force\<close> is \<^verbatim>\<open>None\<close>, neither a boolean nor a parameter error.
\<close>

theorem prepare_call_boolean_from_integer:
  "validate_parameters bi (Some trigger_schema) ''trigger_job''
       [(''job_name'', PStr ''deploy''), (''force'', PInt 1)]
     = Inr \<lparr>valid = True, errors = [],
            converted_params = [(''job_name'', PStr ''deploy''), (''force'', PNone)]\<rparr>
   \<and> prepare_call bi ''jenkins'' (Some trigger_schema) ''trigger_job''
       [(''job_name'', PStr ''deploy''), (''force'', PInt 1)]
     = Inr (Send [(''job_name'', PStr ''deploy''), (''force'', PNone)])"
  by (simp add: prepare_call_def validate_parameters_def trigger_schema_def param_type_of_def
      convert_parameter_type_def py_str_def Let_def)

lemma convert_all_keeps_errors:
  "convert_all bi sch ps errs conv = Inr (errs', conv') \<Longrightarrow> set errs \<subseteq> set errs'"
proof (induction ps arbitrary: errs conv)
  case Nil
  then show ?case by simp
next
  case (Cons p ps)
  obtain n v where p: "p = (n, v)" by (cases p)
  show ?case
  proof (cases "map_of (parameters sch) n")
    case None
    with Cons.prems p have "convert_all bi sch ps errs (AList.update n v conv) = Inr (errs', conv')"
      by simp
    from Cons.IH [OF this] show ?thesis .
  next
    case (Some param_def)
    show ?thesis
    proof (cases "param_type_of param_def")
      case (Inl e)
      with Cons.prems p Some show ?thesis by simp
    next
      case (Inr ty)
      show ?thesis
      proof (cases "convert_parameter_type bi v ty")
        case (Inl e)
        show ?thesis
        proof (cases e)
          case (ValueError msg)
          with Cons.prems p Some Inr Inl
          have "convert_all bi sch ps (errs @ [''Parameter '' @ quoted n @ '': '' @ msg]) conv
                  = Inr (errs', conv')" by simp
          from Cons.IH [OF this] show ?thesis by simp
        qed (use Cons.prems p Some Inr Inl in simp_all)
      next
        case r: (Inr cv)
        with Cons.prems p Some Inr
        have "convert_all bi sch ps errs (AList.update n cv conv) = Inr (errs', conv')" by simp
        from Cons.IH [OF this] show ?thesis .
      qed
    qed
  qed
qed

text \<open>
  A required parameter that the caller leaves out makes the validation fail with an
  error that names it, and the call is rejected before the transport is used.
\<close>

theorem missing_required_parameter_is_rejected:
  assumes "r \<in> set (required sch)" and "r \<notin> set (map fst params)"
    and "validate_parameters bi (Some sch) tool_name params = Inr res"
  shows "\<not> valid res
       \<and> ''Required parameter '' @ quoted r @ '' is missing'' \<in> set (errors res)
       \<and> (\<exists>resp. prepare_call bi server (Some sch) tool_name params = Inr (Rejected resp)
              \<and> \<not> success resp)"
proof -
  let ?missing = "map (\<lambda>r. ''Required parameter '' @ quoted r @ '' is missing'')
                           (filter (\<lambda>r. r \<notin> set (map fst params)) (required sch))"
  from assms(3) obtain errs conv where
    ca: "convert_all bi sch params ?missing [] = Inr (errs, conv)"
    and res: "res = \<lparr>valid = (length errs = 0), errors = errs, converted_params = conv\<rparr>"
    by (auto simp: validate_parameters_def Let_def split: sum.splits)
  have "''Required parameter '' @ quoted r @ '' is missing'' \<in> set ?missing"
    using assms(1,2) by auto
  with convert_all_keeps_errors [OF ca]
  have mem: "''Required parameter '' @ quoted r @ '' is missing'' \<in> set errs" by blast
  then have ne: "errs \<noteq> []" by auto
  from res mem ne have 1: "\<not> valid res"
    "''Required parameter '' @ quoted r @ '' is missing'' \<in> set (errors res)" by simp_all
  with assms(3) have "\<exists>resp. prepare_call bi server (Some sch) tool_name params = Inr (Rejected resp)
              \<and> \<not> success resp"
    by (simp add: prepare_call_def)
  with 1 show ?thesis by blast
qed

theorem missing_required_parameter_is_rejected_witness:
  "''job_name'' \<in> set (required trigger_schema)
   \<and> ''job_name'' \<notin> set (map fst [(''build_number'', PStr ''42'')])
   \<and> (\<exists>res. validate_parameters no_builtins (Some trigger_schema) ''trigger_job''
          [(''build_number'', PStr ''42'')] = Inr res
        \<and> \<not> valid res
        \<and> ''Required parameter '' @ quoted ''job_name'' @ '' is missing'' \<in> set (errors res))
   \<and> (\<exists>resp. prepare_call no_builtins ''jenkins'' (Some trigger_schema) ''trigger_job''
          [(''build_number'', PStr ''42'')] = Inr (Rejected resp))"
proof -
  have h: "''job_name'' \<in> set (required trigger_schema)"
    "''job_name'' \<notin> set (map fst [(''build_number'', PStr ''42'')])"
    by (simp_all add: trigger_schema_def)
  obtain res where v: "validate_parameters no_builtins (Some trigger_schema) ''trigger_job''
          [(''build_number'', PStr ''42'')] = Inr res"
    by (simp add: validate_parameters_def trigger_schema_def param_type_of_def
      convert_parameter_type_def Let_def isdigit_def is_digit_char_def is_ascii_digit_def
      int_of_str_def no_builtins_def)
  from missing_required_parameter_is_rejected [OF h v, of "''jenkins''"] h v
  show ?thesis by blast
qed

lemma int_of_digits_42:
  "list_all is_ascii_digit ''42'' \<and> int_of_digits ''42'' = 42"
  by (simp add: is_ascii_digit_def int_of_digits_def)

lemma length_takeWhile_all: "list_all P xs \<Longrightarrow> length (takeWhile P xs) = length xs"
  by (induction xs) simp_all

lemma int_of_str_digits:
  assumes "list_all is_ascii_digit s"
    and "int_max_str_digits bi = 0 \<or> length s \<le> int_max_str_digits bi"
  shows "int_of_str bi s = Inr (PInt (int_of_digits s))"
  using assms by (auto simp: int_of_str_def Let_def length_takeWhile_all)

text \<open>
  A non-empty string of the digits 0 to 9, no longer than the interpreter's limit on
  integer strings, for a parameter declared an integer is converted to that integer:
  \<^verbatim>\<open>"42"\<close> becomes 42.
\<close>

theorem digit_string_becomes_integer:
  assumes "map_of (parameters sch) n = Some (PDict [(''type'', PStr ''integer'')])"
    and "s \<noteq> []" and "list_all is_ascii_digit s"
    and "int_max_str_digits bi = 0 \<or> length s \<le> int_max_str_digits bi"
  shows "validate_parameters bi (Some sch) tool_name [(n, PStr s)]
           = Inr \<lparr>valid = (\<forall>r\<in>set (required sch). r = n),
                  errors = map (\<lambda>r. ''Required parameter '' @ quoted r @ '' is missing'')
                             (filter (\<lambda>r. r \<noteq> n) (required sch)),
                  converted_params = [(n, PInt (int_of_digits s))]\<rparr>"
proof -
  have "filter (\<lambda>r. r \<notin> set (map fst [(n, PStr s)])) (required sch) = filter (\<lambda>r. r \<noteq> n) (required sch)"
    by simp
  moreover have "(filter (\<lambda>r. r \<noteq> n) (required sch) = []) = (\<forall>r\<in>set (required sch). r = n)"
    by (auto simp: filter_empty_conv)
  moreover have "list_all is_digit_char s"
    using assms(3) by (induction s) (simp_all add: is_digit_char_def)
  then have "isdigit s" using assms(2) by (simp add: isdigit_def)
  ultimately show ?thesis
    using assms(1) int_of_str_digits [OF assms(3,4)]
    by (simp add: validate_parameters_def param_type_of_def convert_parameter_type_def Let_def)
qed

theorem digit_string_becomes_integer_witness:
  "map_of (parameters trigger_schema) ''build_number'' = Some (PDict [(''type'', PStr ''integer'')])
   \<and> list_all is_ascii_digit ''42''
   \<and> length ''42'' \<le> int_max_str_digits no_builtins
   \<and> converted_params (projr (validate_parameters no_builtins (Some trigger_schema) ''trigger_job''
        [(''build_number'', PStr ''42'')])) = [(''build_number'', PInt 42)]"
proof -
  have h: "map_of (parameters trigger_schema) ''build_number'' = Some (PDict [(''type'', PStr ''integer'')])"
    "''42'' \<noteq> []" "list_all is_ascii_digit ''42''"
    "int_max_str_digits no_builtins = 0 \<or> length ''42'' \<le> int_max_str_digits no_builtins"
    by (simp_all add: trigger_schema_def is_ascii_digit_def no_builtins_def)
  from digit_string_becomes_integer [OF h, of "''trigger_job''"] h(1,3) int_of_digits_42
  show ?thesis by (simp add: no_builtins_def)
qed

lemma convert_all_unknown:
  assumes "map_of (parameters sch) n = None"
  shows "distinct (map fst ps) \<Longrightarrow> convert_all bi sch ps errs conv = Inr (errs', conv') \<Longrightarrow>
         map_of conv' n = (case map_of ps n of Some v \<Rightarrow> Some v | None \<Rightarrow> map_of conv n)"
proof (induction ps arbitrary: errs conv)
  case Nil
  then show ?case by simp
next
  case (Cons p ps)
  obtain k v where p: "p = (k, v)" by (cases p)
  from Cons.prems(1) p have d: "distinct (map fst ps)" and kn: "k \<notin> fst ` set ps" by auto
  show ?case
  proof (cases "k = n")
    case True
    with Cons.prems(2) p assms
    have "convert_all bi sch ps errs (AList.update n v conv) = Inr (errs', conv')" by simp
    from Cons.IH [OF d this] kn True have "map_of conv' n = Some v"
      by (simp add: map_of_eq_None_iff [THEN iffD2] update_conv')
    with p True show ?thesis by simp
  next
    case False
    have step: "\<exists>errs1 conv1. convert_all bi sch ps errs1 conv1 = Inr (errs', conv') \<and>
                  map_of conv1 n = map_of conv n"
    proof (cases "map_of (parameters sch) k")
      case None
      with Cons.prems(2) p have "convert_all bi sch ps errs (AList.update k v conv) = Inr (errs', conv')"
        by simp
      moreover have "map_of (AList.update k v conv) n = map_of conv n"
        using False by (simp add: update_conv')
      ultimately show ?thesis by blast
    next
      case (Some param_def)
      show ?thesis
      proof (cases "param_type_of param_def")
        case (Inl e)
        with Cons.prems(2) p Some show ?thesis by simp
      next
        case (Inr ty)
        show ?thesis
        proof (cases "convert_parameter_type bi v ty")
          case (Inl e)
          with Cons.prems(2) p Some Inr show ?thesis by (cases e) auto
        next
          case r: (Inr cv)
          with Cons.prems(2) p Some Inr
          have "convert_all bi sch ps errs (AList.update k cv conv) = Inr (errs', conv')" by simp
          moreover have "map_of (AList.update k cv conv) n = map_of conv n"
            using False by (simp add: update_conv')
          ultimately show ?thesis by blast
        qed
      qed
    qed
    then obtain errs1 conv1 where c1: "convert_all bi sch ps errs1 conv1 = Inr (errs', conv')"
      and m1: "map_of conv1 n = map_of conv n" by blast
    from Cons.IH [OF d c1] m1 p False show ?thesis by (simp split: option.splits)
  qed
qed

text \<open>A parameter that the schema does not declare is passed on with its value unchanged.\<close>

theorem unknown_parameter_passes_through:
  assumes "map_of (parameters sch) n = None" and "distinct (map fst params)"
    and "(n, v) \<in> set params"
    and "validate_parameters bi (Some sch) tool_name params = Inr res"
  shows "map_of (converted_params res) n = Some v"
proof -
  from assms(4) obtain errs conv where
    ca: "convert_all bi sch params
           (map (\<lambda>r. ''Required parameter '' @ quoted r @ '' is missing'')
              (filter (\<lambda>r. r \<notin> set (map fst params)) (required sch))) [] = Inr (errs, conv)"
    and res: "res = \<lparr>valid = (length errs = 0), errors = errs, converted_params = conv\<rparr>"
    by (auto simp: validate_parameters_def Let_def split: sum.splits)
  from assms(2,3) have "map_of params n = Some v" by simp
  with convert_all_unknown [OF assms(1,2) ca] res show ?thesis by simp
qed

theorem unknown_parameter_passes_through_witness:
  "map_of (parameters trigger_schema) ''verbose'' = None
   \<and> distinct (map fst [(''job_name'', PStr ''deploy''), (''verbose'', PInt 3)])
   \<and> map_of (converted_params (projr (validate_parameters no_builtins (Some trigger_schema)
        ''trigger_job'' [(''job_name'', PStr ''deploy''), (''verbose'', PInt 3)]))) ''verbose''
       = Some (PInt 3)"
proof -
  let ?ps = "[(''job_name'', PStr ''deploy''), (''verbose'', PInt 3)]"
  have h: "map_of (parameters trigger_schema) ''verbose'' = None" "distinct (map fst ?ps)"
    "(''verbose'', PInt 3) \<in> set ?ps"
    by (simp_all add: trigger_schema_def)
  obtain res where v: "validate_parameters no_builtins (Some trigger_schema) ''trigger_job'' ?ps = Inr res"
    by (simp add: validate_parameters_def trigger_schema_def param_type_of_def
      convert_parameter_type_def py_str_def Let_def)
  from unknown_parameter_passes_through [OF h v] h v show ?thesis by simp
qed

section \<open>Capability discovery\<close>

lemma add_tools_objects:
  "list_all is_tool_object ts \<Longrightarrow>
   \<exists>tc'. add_tools n ts schemas tc = (None, schemas @ map normalize_tool_schema ts, tc')"
proof (induction ts arbitrary: schemas tc)
  case Nil
  then show ?case by simp
next
  case (Cons t ts)
  then obtain nm d i where t: "t = Tool_object nm d i" by (cases t) auto
  from Cons.prems have "list_all is_tool_object ts" by simp
  from Cons.IH [OF this, of "schemas @ [normalize_tool_schema t]"
      "tc(n @ '':'' @ nm \<mapsto> normalize_tool_schema t)"]
  obtain tc' where ih:
    "add_tools n ts (schemas @ [normalize_tool_schema t])
       (tc(n @ '':'' @ nm \<mapsto> normalize_tool_schema t))
     = (None, (schemas @ [normalize_tool_schema t]) @ map normalize_tool_schema ts, tc')"
    by blast
  have step: "add_tools n (t # ts) schemas tc
     = add_tools n ts (schemas @ [normalize_tool_schema t])
         (tc(n @ '':'' @ nm \<mapsto> normalize_tool_schema t))"
    by (simp add: t Let_def del: normalize_tool_schema.simps)
  show ?case unfolding step ih by simp
qed

lemma discover_other_server:
  assumes "cfg_name s \<noteq> n"
  shows "capabilities (snd (discover_server_capabilities env s c)) n = capabilities c n"
    and "server_health (snd (discover_server_capabilities env s c)) n = server_health c n"
  using assms
  by (auto simp: discover_server_capabilities_def Let_def split: http_discovery.splits prod.splits option.splits)

lemma discover_others:
  assumes "n \<notin> set (map cfg_name xs)"
  shows "capabilities (fold (\<lambda>server st. snd (discover_server_capabilities env server st)) xs c) n
           = capabilities c n
       \<and> server_health (fold (\<lambda>server st. snd (discover_server_capabilities env server st)) xs c) n
           = server_health c n"
  using assms
proof (induction xs arbitrary: c)
  case Nil
  then show ?case by simp
next
  case (Cons x xs)
  then have "cfg_name x \<noteq> n" "n \<notin> set (map cfg_name xs)" by auto
  with Cons.IH [of "snd (discover_server_capabilities env x c)"] discover_other_server [of x n env c]
  show ?case by simp
qed

lemma discover_reachable:
  assumes "cfg_transport s = HTTP" and "env s = Listed info ts" and "list_all is_tool_object ts"
  shows "fst (discover_server_capabilities env s c)
           = discovered_capabilities (cfg_name s) info (map normalize_tool_schema ts)"
    and "capabilities (snd (discover_server_capabilities env s c)) (cfg_name s)
           = Some (discovered_capabilities (cfg_name s) info (map normalize_tool_schema ts))"
    and "server_health (snd (discover_server_capabilities env s c)) (cfg_name s) = Some True"
proof -
  from add_tools_objects [OF assms(3), of "cfg_name s" "[]" "tools_cache c"] obtain tc' where
    "add_tools (cfg_name s) ts [] (tools_cache c) = (None, map normalize_tool_schema ts, tc')"
    by auto
  with assms(1,2) show "fst (discover_server_capabilities env s c)
           = discovered_capabilities (cfg_name s) info (map normalize_tool_schema ts)"
    and "capabilities (snd (discover_server_capabilities env s c)) (cfg_name s)
           = Some (discovered_capabilities (cfg_name s) info (map normalize_tool_schema ts))"
    and "server_health (snd (discover_server_capabilities env s c)) (cfg_name s) = Some True"
    by (simp_all add: discover_server_capabilities_def Let_def)
qed

lemma discover_unreachable:
  assumes "cfg_transport s = HTTP" and "env s = Connect_failed msg"
  shows "fst (discover_server_capabilities env s c) = empty_capabilities (cfg_name s)"
    and "capabilities (snd (discover_server_capabilities env s c)) = capabilities c"
    and "server_health (snd (discover_server_capabilities env s c)) (cfg_name s) = Some False"
  using assms by (simp_all add: discover_server_capabilities_def)

lemma discover_all_at:
  assumes "distinct (map cfg_name order)" and "s \<in> set order"
  shows "\<exists>c0. capabilities (snd (discover_all_servers env order c)) (cfg_name s)
               = capabilities (snd (discover_server_capabilities env s c0)) (cfg_name s)
            \<and> server_health (snd (discover_all_servers env order c)) (cfg_name s)
               = server_health (snd (discover_server_capabilities env s c0)) (cfg_name s)
            \<and> capabilities c0 (cfg_name s) = capabilities c (cfg_name s)"
proof -
  let ?step = "\<lambda>server st. snd (discover_server_capabilities env server st)"
  from assms(2) obtain xs ys where order: "order = xs @ s # ys" by (auto dest: split_list)
  with assms(1) have nx: "cfg_name s \<notin> set (map cfg_name xs)"
    and ny: "cfg_name s \<notin> set (map cfg_name ys)" by auto
  let ?c0 = "fold ?step xs c"
  have "fold ?step order c = fold ?step ys (?step s ?c0)" by (simp add: order)
  with discover_others [OF ny, of env "?step s ?c0"] discover_others [OF nx, of env c]
  show ?thesis by (intro exI [of _ ?c0]) (simp add: discover_all_servers_def Let_def)
qed

lemma completion_order_names:
  assumes "distinct (map cfg_name (servers c))" and "completion_order_of c order"
  shows "distinct (map cfg_name order)"
proof -
  from assms(1) have "inj_on cfg_name (set (servers c))" by (simp add: distinct_map)
  moreover from assms(2) have "set order \<subseteq> set (servers c)" "distinct order"
    by (auto simp: completion_order_of_def)
  ultimately show ?thesis by (auto simp: distinct_map intro: inj_on_subset)
qed

text \<open>
  Claim C7, as the code has it. The servers have distinct names and the tasks of the
  enabled ones end in any order. An enabled HTTP server that answers with its tools has
  its full capability set, the normalised schema of every tool, in the map returned and
  is marked healthy, whatever the other servers do. An enabled HTTP server whose
  discovery raises is marked unhealthy and its own call returns the empty capability set;
  the map returned holds for it what it held before (nothing, or the previous snapshot).
\<close>

theorem discovery_isolates_failures:
  assumes "distinct (map cfg_name (servers c))" and "completion_order_of c order"
    and "s \<in> set (servers c)" and "cfg_enabled s" and "cfg_transport s = HTTP"
  shows "(env s = Listed info ts \<and> list_all is_tool_object ts \<longrightarrow>
            fst (discover_all_servers env order c) (cfg_name s)
              = Some (discovered_capabilities (cfg_name s) info (map normalize_tool_schema ts))
            \<and> server_health (snd (discover_all_servers env order c)) (cfg_name s) = Some True)
       \<and> (env s = Connect_failed msg \<longrightarrow>
            server_health (snd (discover_all_servers env order c)) (cfg_name s) = Some False
            \<and> fst (discover_server_capabilities env s c1) = empty_capabilities (cfg_name s)
            \<and> fst (discover_all_servers env order c) (cfg_name s) = capabilities c (cfg_name s))"
proof -
  have names: "distinct (map cfg_name order)"
    using assms(1,2) by (rule completion_order_names)
  have mem: "s \<in> set order" using assms(2,3,4) by (simp add: completion_order_of_def)
  from discover_all_at [OF names mem, of env c] obtain c0 where
    caps: "capabilities (snd (discover_all_servers env order c)) (cfg_name s)
               = capabilities (snd (discover_server_capabilities env s c0)) (cfg_name s)"
    and health: "server_health (snd (discover_all_servers env order c)) (cfg_name s)
               = server_health (snd (discover_server_capabilities env s c0)) (cfg_name s)"
    and before: "capabilities c0 (cfg_name s) = capabilities c (cfg_name s)" by blast
  have ret: "fst (discover_all_servers env order c) = capabilities (snd (discover_all_servers env order c))"
    by (simp add: discover_all_servers_def Let_def)
  have ok: "fst (discover_all_servers env order c) (cfg_name s)
              = Some (discovered_capabilities (cfg_name s) info (map normalize_tool_schema ts))
            \<and> server_health (snd (discover_all_servers env order c)) (cfg_name s) = Some True"
    if "env s = Listed info ts" "list_all is_tool_object ts"
    using discover_reachable(2,3) [where env = env and s = s and c = c0, OF assms(5) that] caps health ret by simp
  have bad: "server_health (snd (discover_all_servers env order c)) (cfg_name s) = Some False
            \<and> fst (discover_server_capabilities env s c1) = empty_capabilities (cfg_name s)
            \<and> fst (discover_all_servers env order c) (cfg_name s) = capabilities c (cfg_name s)"
    if "env s = Connect_failed msg"
    using discover_unreachable [where env = env and s = s, OF assms(5) that] caps health ret before by simp
  from ok bad show ?thesis by blast
qed

text \<open>
  With alpha reachable and beta not, and beta's task ending first, the result holds
  alpha's two tools; beta is marked unhealthy and has no entry.
\<close>

theorem discovery_isolates_failures_witness:
  "fst (discover_all_servers beta_down [example_server ''beta'' True, example_server ''alpha'' True]
          two_server_client) ''alpha''
     = Some (discovered_capabilities ''alpha'' None
               [normalize_tool_schema list_jobs_tool, normalize_tool_schema get_job_info_tool])
   \<and> server_health (snd (discover_all_servers beta_down
          [example_server ''beta'' True, example_server ''alpha'' True] two_server_client)) ''alpha''
       = Some True
   \<and> server_health (snd (discover_all_servers beta_down
          [example_server ''beta'' True, example_server ''alpha'' True] two_server_client)) ''beta''
       = Some False
   \<and> fst (discover_server_capabilities beta_down (example_server ''beta'' True) two_server_client)
       = empty_capabilities ''beta''
   \<and> fst (discover_all_servers beta_down [example_server ''beta'' True, example_server ''alpha'' True]
          two_server_client) ''beta'' = None"
proof -
  let ?a = "example_server ''alpha'' True"
  let ?b = "example_server ''beta'' True"
  let ?order = "[?b, ?a]"
  have ab: "?a \<noteq> ?b" by (simp add: example_server_def)
  have h: "distinct (map cfg_name (servers two_server_client))"
    "completion_order_of two_server_client ?order"
    "?a \<in> set (servers two_server_client)" "?b \<in> set (servers two_server_client)"
    "cfg_enabled ?a" "cfg_enabled ?b" "cfg_transport ?a = HTTP" "cfg_transport ?b = HTTP"
    using ab by (auto simp: two_server_client_def completion_order_of_def example_server_def)
  have env: "beta_down ?a = Listed None [list_jobs_tool, get_job_info_tool]"
    "beta_down ?b = Connect_failed ''connection refused''"
    "list_all is_tool_object [list_jobs_tool, get_job_info_tool]"
    by (simp_all add: beta_down_def example_server_def list_jobs_tool_def get_job_info_tool_def)
  have nm: "cfg_name ?a = ''alpha''" "cfg_name ?b = ''beta''"
    "capabilities two_server_client ''beta'' = None"
    by (simp_all add: example_server_def two_server_client_def)
  from discovery_isolates_failures [OF h(1,2,3,5,7), of beta_down None
      "[list_jobs_tool, get_job_info_tool]"] env(1,3) nm(1)
  have a: "fst (discover_all_servers beta_down ?order two_server_client) ''alpha''
     = Some (discovered_capabilities ''alpha'' None
               [normalize_tool_schema list_jobs_tool, normalize_tool_schema get_job_info_tool])"
    "server_health (snd (discover_all_servers beta_down ?order two_server_client)) ''alpha''
       = Some True"
    by simp_all
  from discovery_isolates_failures [OF h(1,2,4,6,8), where env = beta_down
      and msg = "''connection refused''" and ?c1.0 = two_server_client] env(2) nm(2,3)
  have b: "server_health (snd (discover_all_servers beta_down ?order two_server_client)) ''beta''
       = Some False"
    "fst (discover_server_capabilities beta_down ?b two_server_client) = empty_capabilities ''beta''"
    "fst (discover_all_servers beta_down ?order two_server_client) ''beta'' = None"
    by simp_all
  from a b show ?thesis by blast
qed

text \<open>
  Against C7 as stated (an empty capability set is recorded for a failing server, and
  every reachable server's capability set is returned): beta was discovered earlier with
  \<^verbatim>\<open>list_jobs\<close> and is now unreachable; the map returned still holds that snapshot for
  beta, not an empty capability set. Without an earlier snapshot the map holds no entry
  for beta at all. And gamma, on the websocket transport, would answer with \<^verbatim>\<open>list_jobs\<close>
  but is never asked: the map holds no entry for it.
\<close>

theorem discovery_keeps_old_snapshot_counterexample:
  "fst (discover_all_servers beta_down [example_server ''alpha'' True, example_server ''beta'' True]
          stale_client) ''beta''
     = Some (discovered_capabilities ''beta'' None [normalize_tool_schema list_jobs_tool])
   \<and> map schema_name (tools (discovered_capabilities ''beta'' None [normalize_tool_schema list_jobs_tool]))
       = [''list_jobs'']
   \<and> tools (empty_capabilities ''beta'') = []
   \<and> fst (discover_all_servers beta_down [example_server ''alpha'' True, example_server ''beta'' True]
          two_server_client) ''beta'' = None
   \<and> fst (discover_all_servers (\<lambda>s. Listed None [list_jobs_tool]) (servers websocket_client)
          websocket_client) ''gamma'' = None"
  by (simp add: discover_all_servers_def discover_server_capabilities_def beta_down_def
      example_server_def stale_client_def two_server_client_def list_jobs_tool_def
      get_job_info_tool_def discovered_capabilities_def empty_capabilities_def
      websocket_client_def Let_def)

end
